theory Spec2Isabelle
  imports Main "HOL-Library.Word" "HOL-Library.Signed_Division"
begin

unbundle bit_operations_syntax

section \<open>Bytes and the block cipher\<close>

text \<open>
  Go's \<open>byte\<close> is an 8-bit word and a \<open>[]byte\<close> is a list of them. Go's \<open>int\<close> is
  modelled as \<open>int\<close>: the only integer arithmetic of the package is on lengths and on the
  two size parameters, none of which comes near the 64-bit bound; \<open>uint64\<close> conversions
  are words of 64 bits.
\<close>

type_synonym byte = "8 word"
type_synonym bytes = "byte list"

text \<open>
  \<open>crypto/cipher.Block\<close>, the interface the package is given: \<open>BlockSize()\<close> and
  \<open>Encrypt(dst, src)\<close>. At every call of this package \<open>dst\<close> and \<open>src\<close> are whole
  blocks, so \<open>Encrypt\<close> is the function from the source block to the block written to
  \<open>dst\<close>. \<open>block_ok\<close> says that the cipher writes one block for one block.
\<close>

record cipherBlock =
  BlockSize :: int
  Encrypt :: "bytes \<Rightarrow> bytes"

definition block_ok :: "cipherBlock \<Rightarrow> bool" where
  "block_ok b \<longleftrightarrow> (\<forall>x. int (length x) = BlockSize b \<longrightarrow> int (length (Encrypt b x)) = BlockSize b)"

section \<open>cbc\_mac.go\<close>

text \<open>
  \<open>type cbcMac struct { ci []byte; p int; block cipher.Block }\<close>.
  The cursor \<open>p\<close> is a Go \<open>int\<close>. An index \<open>mac.ci[mac.p]\<close> outside the slice would
  panic in Go; \<open>Write\<close> reaches it only after its guard has brought the cursor below
  \<open>len(mac.ci)\<close>, which is 16 for every accumulator \<open>newCBCMACFromBlock\<close> builds for
  \<open>NewCCM\<close>.
\<close>

record cbcMac =
  ci :: bytes
  p :: int
  block :: cipherBlock

text \<open>One round of the loop body of \<open>Write\<close>, for the input byte \<open>c\<close>.\<close>

definition writeByte :: "cbcMac \<Rightarrow> byte \<Rightarrow> cbcMac" where
  "writeByte m c =
     (let m1 = (if p m \<ge> int (length (ci m))
                then m\<lparr>ci := Encrypt (block m) (ci m), p := 0\<rparr>
                else m)
      in m1\<lparr>ci := (ci m1)[nat (p m1) := (ci m1 ! nat (p m1)) XOR c], p := p m1 + 1\<rparr>)"

text \<open>\<open>Write\<close>: the loop over the bytes of the argument. The Go method also returns
  \<open>(len(p), nil)\<close>, which every caller discards.\<close>

fun Write :: "cbcMac \<Rightarrow> bytes \<Rightarrow> cbcMac" where
  "Write m [] = m"
| "Write m (c # cs) = Write (writeByte m c) cs"

definition PadZero :: "cbcMac \<Rightarrow> cbcMac" where
  "PadZero m = (if p m \<noteq> 0 then m\<lparr>ci := Encrypt (block m) (ci m), p := 0\<rparr> else m)"

definition Sum :: "cbcMac \<Rightarrow> bytes \<Rightarrow> bytes \<times> cbcMac" where
  "Sum m b =
     (let m1 = (if p m \<noteq> 0 then m\<lparr>ci := Encrypt (block m) (ci m), p := 0\<rparr> else m)
      in (b @ ci m1, m1))"

definition Reset :: "cbcMac \<Rightarrow> cbcMac" where
  "Reset m = m\<lparr>ci := map (\<lambda>_. 0) (ci m), p := 0\<rparr>"

definition Size :: "cbcMac \<Rightarrow> int" where
  "Size m = int (length (ci m))"

definition CbcMacBlockSize :: int where
  "CbcMacBlockSize = 16"

definition newCBCMACFromBlock :: "cipherBlock \<Rightarrow> cbcMac" where
  "newCBCMACFromBlock b = \<lparr>ci = replicate (nat (BlockSize b)) 0, p = 0, block = b\<rparr>"

section \<open>Helpers of the package that the CCM code calls\<close>

text \<open>
  Modelled from the spec: \<open>maxUnsignedVarInt\<close> is not among the source files. The spec
  gives the maximum payload as \<open>2^(8*(15-N)) - 1\<close> for the argument \<open>15 - N\<close>; the call
  sites compare the result with a \<open>uint64\<close>, which fixes the result type.
\<close>

definition maxUnsignedVarInt :: "int \<Rightarrow> 64 word" where
  "maxUnsignedVarInt n = word_of_int (2 ^ nat (8 * n) - 1)"

text \<open>
  Modelled from the spec: \<open>putUVarInt\<close> is not among the source files. The spec has the
  length encoded big-endian into the field it is given, over the whole width of the
  field. The result is the new content of the slice passed as first argument.
\<close>

definition putUVarInt :: "bytes \<Rightarrow> 64 word \<Rightarrow> bytes" where
  "putUVarInt bs u = map (\<lambda>i. ucast (drop_bit (8 * (length bs - 1 - i)) u)) [0..<length bs]"

text \<open>
  The destination slice of \<open>Seal\<close> and \<open>Open\<close>, with what its memory shares. The interface
  \<open>cipher.AEAD\<close>, which \<open>NewCCM\<close> returns, allows two uses: a \<open>dst\<close> whose memory, spare
  capacity included, is apart from the input and the associated data (\<open>Apart\<close>, with the
  bytes of \<open>dst\<close>; \<open>nil\<close> is \<open>Apart []\<close>), and \<open>dst = input[:0]\<close>, to reuse the storage
  of the input, which is the plaintext for \<open>Seal\<close> and the ciphertext for \<open>Open\<close>
  (\<open>InPlace\<close>, with the capacity of the input, which in Go is at least its length).
\<close>

datatype dstSlice = Apart bytes | InPlace nat

fun dstBytes :: "dstSlice \<Rightarrow> bytes" where
  "dstBytes (Apart xs) = xs"
| "dstBytes (InPlace k) = []"

text \<open>
  Modelled from the spec: \<open>sliceForAppend\<close> is not among the source files. The spec has
  the destination allocated or extended to hold the requested number of bytes more: it
  is extended in its own memory when its capacity allows, and allocated anew otherwise.
  The result is the extended buffer and its new tail, which in Go share their memory,
  and, for the model, whether the tail lies over the input: that is so when \<open>input[:0]\<close>
  is extended in its own memory. The callers write every byte of the tail before they
  read it, so that its first content does not matter.
\<close>

definition sliceForAppend :: "dstSlice \<Rightarrow> nat \<Rightarrow> bytes \<times> bytes \<times> bool" where
  "sliceForAppend inp n =
     (dstBytes inp @ replicate n 0, replicate n 0,
      (case inp of Apart xs \<Rightarrow> False | InPlace k \<Rightarrow> n \<le> k))"

text \<open>
  Modelled from the spec: \<open>xorBytes\<close> is not among the source files. The spec has one
  operand XORed with the other in place; the result is the new content of \<open>dst\<close>.
\<close>

definition xorBytes :: "bytes \<Rightarrow> bytes \<Rightarrow> bytes \<Rightarrow> bytes" where
  "xorBytes dst a b = map2 (XOR) a b @ drop (min (length a) (length b)) dst"

section \<open>CTR mode of the standard library\<close>

text \<open>
  \<open>cipher.NewCTR(block, iv)\<close> followed by one \<open>XORKeyStream(dst, src)\<close>: the key stream
  is the encryption of the counter block, of the counter block plus one, and so on, the
  counter being the whole block read big-endian; \<open>len(src)\<close> bytes of \<open>dst\<close> are written.
\<close>

fun incrLE :: "bytes \<Rightarrow> bytes" where
  "incrLE [] = []"
| "incrLE (b # bs) = (if b + 1 = 0 then 0 # incrLE bs else (b + 1) # bs)"

definition ctrIncr :: "bytes \<Rightarrow> bytes" where
  "ctrIncr ctr = rev (incrLE (rev ctr))"

fun keyStream :: "cipherBlock \<Rightarrow> bytes \<Rightarrow> nat \<Rightarrow> bytes" where
  "keyStream b ctr 0 = []"
| "keyStream b ctr (Suc k) = Encrypt b ctr @ keyStream b (ctrIncr ctr) k"

definition XORKeyStream :: "cipherBlock \<Rightarrow> bytes \<Rightarrow> bytes \<Rightarrow> bytes \<Rightarrow> bytes" where
  "XORKeyStream b iv dst src =
     (let bs = nat (BlockSize b)
      in map2 (XOR) src (keyStream b iv ((length src + bs - 1) div bs)) @ drop (length src) dst)"

section \<open>The CCM construction\<close>

text \<open>
  Slices of a buffer share its memory. \<open>onSlice lo hi f xs\<close> is the buffer \<open>xs\<close> after
  the slice \<open>xs[lo:hi]\<close> has been given the content \<open>f\<close> computes from its old one.
  \<open>copyBytes dst src\<close> is the content of \<open>dst\<close> after Go's \<open>copy(dst, src)\<close>.
\<close>

definition onSlice :: "nat \<Rightarrow> nat \<Rightarrow> (bytes \<Rightarrow> bytes) \<Rightarrow> bytes \<Rightarrow> bytes" where
  "onSlice lo hi f xs = take lo xs @ f (take (hi - lo) (drop lo xs)) @ drop hi xs"

definition copyBytes :: "bytes \<Rightarrow> bytes \<Rightarrow> bytes" where
  "copyBytes dst src = take (length dst) src @ drop (length src) dst"

text \<open>
  \<open>type ccm struct\<close>. The type and its fields are unexported, so every instance comes
  from \<open>NewCCM\<close>: its accumulator has 16 bytes, its nonce size is in 7..13 and its tag
  size in 4..16. For these instances every index and slice bound of \<open>getTag\<close>, \<open>Seal\<close>
  and \<open>Open\<close> lies inside its slice (the counter block has 16 bytes, \<open>1 + nonceSize\<close> is
  at most 14, the tag has 16 bytes), so that the only panic of the package is the explicit
  one of \<open>Seal\<close>. The functions below are written for these instances, with the list
  operations of HOL for the slices; the properties are stated for them (\<open>ccm_inv\<close>).
\<close>

record ccm =
  blockCipher :: cipherBlock
  mac :: cbcMac
  nonceSize :: int
  tagSize :: int

datatype error =
    ErrInvalidBlockSize
  | ErrInvalidNonceSize
  | ErrInvalidTagSize
  | ErrMaxPayloadSizeReached
  | ErrAuthenticationFailed

datatype panic = IncorrectNonceLength

text \<open>
  \<open>getTag\<close>. \<open>cpy := ctr\<close> copies the slice header, not the bytes: \<open>cpy\<close> is the
  caller's counter block and every store below lands in it. The callers do not read
  their counter block again after the call, so the model returns the tag and the
  instance with its accumulator as the call leaves it. The instance is a pointer
  receiver: the accumulator \<open>c.mac\<close> keeps its state from call to call.
\<close>

definition getTag :: "ccm \<Rightarrow> bytes \<Rightarrow> bytes \<Rightarrow> bytes \<Rightarrow> bytes \<times> ccm" where
  "getTag c ctr data plaintext =
     (let m = Reset (mac c);
          cpy = ctr;
          cpy = cpy[0 := (cpy ! 0) OR word_of_int (push_bit 3 ((tagSize c - 2) sdiv 2))];
          cpy = onSlice (nat (1 + nonceSize c)) (length cpy)
                  (\<lambda>s. putUVarInt s (of_nat (length plaintext))) cpy;
          m = (if length data > 0 then
                 (let cpy = cpy[0 := (cpy ! 0) OR push_bit 6 1];
                      m = Write m cpy;
                      m = (if int (length data) < push_bit 15 1 - push_bit 7 1 then
                             (let cpy = onSlice 0 2 (\<lambda>s. putUVarInt s (of_nat (length data))) cpy
                              in Write m (take 2 cpy))
                           else if int (length data) \<le> push_bit 31 1 - 1 then
                             (let cpy = cpy[0 := 0xff, 1 := 0xfe];
                                  cpy = onSlice 2 6 (\<lambda>s. putUVarInt s (of_nat (length data))) cpy
                              in Write m (take 6 cpy))
                           else
                             (let cpy = cpy[0 := 0xff, 1 := 0xff];
                                  cpy = onSlice 2 10 (\<lambda>s. putUVarInt s (of_nat (length data))) cpy
                              in Write m (take 10 cpy)));
                      m = Write m data
                  in PadZero m)
               else Write m cpy);
          m = Write m plaintext;
          m = PadZero m;
          (t, m) = Sum m []
      in (t, c\<lparr>mac := m\<rparr>))"

definition NonceSize :: "ccm \<Rightarrow> int" where
  "NonceSize c = nonceSize c"

definition Overhead :: "ccm \<Rightarrow> int" where
  "Overhead c = tagSize c"

text \<open>
  The counter block both \<open>Seal\<close> and \<open>Open\<close> format (\<open>Ctr0\<close>):
  \<open>make([]byte, 16)\<close>, byte 0 set to \<open>byte(15 - c.nonceSize - 1)\<close>, the nonce copied to
  \<open>counterBlock[1:]\<close>.
\<close>

definition formatCtr0 :: "ccm \<Rightarrow> bytes \<Rightarrow> bytes" where
  "formatCtr0 c nonce =
     (let counterBlock = replicate 16 0;
          counterBlock = counterBlock[0 := word_of_int (15 - nonceSize c - 1)]
      in onSlice 1 (length counterBlock) (\<lambda>s. copyBytes s nonce) counterBlock)"

text \<open>
  \<open>Seal\<close>. A wrong nonce length panics (\<open>Inl\<close>); an oversized plaintext returns
  \<open>nil\<close> (\<open>None\<close>). \<open>ret\<close> is \<open>dst\<close> followed by the bytes of \<open>ciphertext\<close>, which
  is a view of its tail, and \<open>s0\<close> is the view \<open>ciphertext[len(plaintext):]\<close>, of
  \<open>c.mac.Size()\<close> bytes. When the tail lies over the plaintext, \<open>XORKeyStream\<close> has
  written the ciphertext over the plaintext by the time \<open>getTag\<close> reads it: the slice
  \<open>plaintext\<close> then holds the first \<open>len(plaintext)\<close> bytes of \<open>ciphertext\<close>.
\<close>

definition Seal :: "ccm \<Rightarrow> dstSlice \<Rightarrow> bytes \<Rightarrow> bytes \<Rightarrow> bytes \<Rightarrow> (panic + bytes option) \<times> ccm" where
  "Seal c dst nonce plaintext additionalData =
     (if int (length nonce) \<noteq> NonceSize c then (Inl IncorrectNonceLength, c)
      else if maxUnsignedVarInt (15 - nonceSize c) < of_nat (length plaintext) then (Inr None, c)
      else
        (let (ret, ciphertext, shared) =
               sliceForAppend dst (nat (int (length plaintext) + Size (mac c)));
             counterBlock = formatCtr0 c nonce;
             ciphertext = onSlice (length plaintext) (length ciphertext)
                            (\<lambda>s0. Encrypt (blockCipher c) counterBlock) ciphertext;
             counterBlock = counterBlock[15 := 1];
             ciphertext = XORKeyStream (blockCipher c) counterBlock ciphertext plaintext;
             plaintext = (if shared then take (length plaintext) ciphertext else plaintext);
             (T, c') = getTag c counterBlock additionalData plaintext;
             ciphertext = onSlice (length plaintext) (length ciphertext)
                            (\<lambda>s0. xorBytes s0 s0 T) ciphertext;
             ret = dstBytes dst @ ciphertext
         in (Inr (Some (take (nat (int (length plaintext) + tagSize c)) ret)), c')))"

text \<open>
  \<open>Open\<close>. The result is the error (\<open>Inl\<close>, with a \<open>nil\<close> slice) or the slice \<open>ret\<close>,
  which is \<open>dst\<close> followed by the bytes of \<open>plaintext\<close>. When the tail lies over the
  ciphertext, \<open>XORKeyStream\<close> has written the plaintext over the first \<open>len(plaintext)\<close>
  bytes of \<open>ciphertext\<close>; the tag bytes after them stay as they were.
\<close>

definition Open :: "ccm \<Rightarrow> dstSlice \<Rightarrow> bytes \<Rightarrow> bytes \<Rightarrow> bytes \<Rightarrow> (error + bytes) \<times> ccm" where
  "Open c dst nonce ciphertext additionalData =
     (if int (length nonce) \<noteq> nonceSize c then (Inl ErrInvalidNonceSize, c)
      else if int (length ciphertext) \<le> tagSize c then (Inl ErrInvalidTagSize, c)
      else if maxUnsignedVarInt (15 - nonceSize c)
                < word_of_int (int (length ciphertext) - tagSize c)
           then (Inl ErrMaxPayloadSizeReached, c)
      else
        (let (ret, plaintext, shared) =
               sliceForAppend dst (nat (int (length ciphertext) - tagSize c));
             counterBlock = formatCtr0 c nonce;
             s0 = replicate 16 (0::byte);
             s0 = Encrypt (blockCipher c) counterBlock;
             counterBlock = counterBlock[15 := 1];
             plaintext = XORKeyStream (blockCipher c) counterBlock plaintext
                           (take (length plaintext) ciphertext);
             ciphertext = (if shared then plaintext @ drop (length plaintext) ciphertext
                           else ciphertext);
             (T, c') = getTag c counterBlock additionalData plaintext;
             T = xorBytes T T s0;
             ret = dstBytes dst @ plaintext
         in if take (nat (tagSize c)) T \<noteq> drop (length plaintext) ciphertext
            then (Inl ErrAuthenticationFailed, c')
            else (Inr ret, c')))"

definition NewCCM :: "cipherBlock \<Rightarrow> int \<Rightarrow> int \<Rightarrow> error + ccm" where
  "NewCCM blk nsize tsize =
     (if BlockSize blk \<noteq> CbcMacBlockSize then Inl ErrInvalidBlockSize
      else if \<not> (7 \<le> nsize \<and> nsize \<le> 13) then Inl ErrInvalidNonceSize
      else if \<not> (4 \<le> tsize \<and> tsize \<le> 16 \<and> tsize AND 1 = 0) then Inl ErrInvalidTagSize
      else Inr \<lparr>blockCipher = blk, mac = newCBCMACFromBlock blk,
                nonceSize = nsize, tagSize = tsize\<rparr>)"

section \<open>Notions used to state the properties\<close>

text \<open>
  A block cipher for closed examples: it reverses the block and adds one to every byte
  (a permutation of the 16-byte blocks).
\<close>

definition exampleBlock :: cipherBlock where
  "exampleBlock = \<lparr>BlockSize = 16, Encrypt = (\<lambda>x. map (\<lambda>b. b + 1) (rev x))\<rparr>"

definition exampleBytes16 :: bytes where
  "exampleBytes16 = [1, 2, 3, 4, 5, 6, 7, 8, 9, 10, 11, 12, 13, 14, 15, 16]"

text \<open>
  The accumulators that \<open>NewCCM\<close> builds and its methods lead to: 16 bytes of state, the
  cursor between 0 and 16, over a cipher of block size 16.
\<close>

definition mac_inv :: "cbcMac \<Rightarrow> bool" where
  "mac_inv m \<longleftrightarrow> length (ci m) = 16 \<and> 0 \<le> p m \<and> p m \<le> 16 \<and>
     BlockSize (block m) = 16 \<and> block_ok (block m)"

text \<open>The operations of the accumulator, to speak of every sequence of them.\<close>

datatype macOp = OpWrite bytes | OpPadZero | OpSum bytes | OpReset

fun applyOp :: "cbcMac \<Rightarrow> macOp \<Rightarrow> cbcMac" where
  "applyOp m (OpWrite bs) = Write m bs"
| "applyOp m OpPadZero = PadZero m"
| "applyOp m (OpSum b) = snd (Sum m b)"
| "applyOp m OpReset = Reset m"

definition runOps :: "cbcMac \<Rightarrow> macOp list \<Rightarrow> cbcMac" where
  "runOps m ops = foldl applyOp m ops"

text \<open>
  The instances that \<open>NewCCM\<close> returns and \<open>Seal\<close> and \<open>Open\<close> lead to: an accumulator
  as above over the instance's cipher, the nonce size in 7..13, the tag size even and in
  4..16.
\<close>

definition ccm_inv :: "ccm \<Rightarrow> bool" where
  "ccm_inv c \<longleftrightarrow> mac_inv (mac c) \<and> block (mac c) = blockCipher c \<and>
     7 \<le> nonceSize c \<and> nonceSize c \<le> 13 \<and>
     4 \<le> tagSize c \<and> tagSize c \<le> 16 \<and> even (tagSize c)"

text \<open>The spec's \<open>maxPayload(N) = 2^(8*(15-N)) - 1\<close>.\<close>

definition maxPayload :: "int \<Rightarrow> int" where
  "maxPayload N = 2 ^ nat (8 * (15 - N)) - 1"

text \<open>
  An instance and a nonce for closed examples: \<open>exampleCCM\<close> is what \<open>NewCCM\<close> returns
  for \<open>exampleBlock\<close>, nonce size 13 and tag size 4.
\<close>

definition exampleCCM :: ccm where
  "exampleCCM = \<lparr>blockCipher = exampleBlock, mac = newCBCMACFromBlock exampleBlock,
                  nonceSize = 13, tagSize = 4\<rparr>"

definition exampleNonce :: bytes where
  "exampleNonce = [1, 2, 3, 4, 5, 6, 7, 8, 9, 10, 11, 12, 13]"

text \<open>The same instance with the full tag of 16 bytes.\<close>

definition exampleCCM16 :: ccm where
  "exampleCCM16 = \<lparr>blockCipher = exampleBlock, mac = newCBCMACFromBlock exampleBlock,
                    nonceSize = 13, tagSize = 16\<rparr>"

text \<open>
  The big-endian bytes of a 64-bit value over a field of \<open>w\<close> bytes, and the length
  prefix that \<open>getTag\<close> writes for associated data of \<open>n\<close> bytes (the three branches of
  the source, with their thresholds \<open>1<<15 - 1<<7\<close> and \<open>1<<31 - 1\<close>).
\<close>

definition beBytes :: "nat \<Rightarrow> 64 word \<Rightarrow> bytes" where
  "beBytes w u = map (\<lambda>i. ucast (drop_bit (8 * (w - 1 - i)) u)) [0..<w]"

definition adataPrefix :: "nat \<Rightarrow> bytes" where
  "adataPrefix n =
     (if int n < 2 ^ 15 - 2 ^ 7 then beBytes 2 (of_nat n)
      else if int n \<le> 2 ^ 31 - 1 then [0xff, 0xfe] @ beBytes 4 (of_nat n)
      else [0xff, 0xff] @ beBytes 8 (of_nat n))"

text \<open>
  The first MAC block as the spec words it: \<open>Ctr0\<close> with the flag bits ORed into byte 0
  and the plaintext length encoded into the trailing \<open>15 - N\<close> bytes. \<open>ccmMac\<close> is the
  accumulator after \<open>B0\<close>, the length prefix and the associated data (when there is
  some) and the plaintext, each part closed by \<open>PadZero\<close>.
\<close>

definition B0 :: "ccm \<Rightarrow> bytes \<Rightarrow> bytes \<Rightarrow> bytes \<Rightarrow> bytes" where
  "B0 c nonce ad pt =
     (let ctr0 = formatCtr0 c nonce;
          flags = word_of_int (push_bit 3 ((tagSize c - 2) div 2))
                    OR (if ad = [] then 0 else push_bit 6 1)
      in onSlice (nat (1 + nonceSize c)) 16 (\<lambda>s. putUVarInt s (of_nat (length pt)))
           (ctr0[0 := (ctr0 ! 0) OR flags]))"

definition ccmMac :: "ccm \<Rightarrow> bytes \<Rightarrow> bytes \<Rightarrow> bytes \<Rightarrow> cbcMac" where
  "ccmMac c nonce ad pt =
     (let m = Write (Reset (mac c)) (B0 c nonce ad pt);
          m = (if ad = [] then m
               else PadZero (Write (Write m (adataPrefix (length ad))) ad))
      in PadZero (Write m pt))"

text \<open>
  \<open>S0\<close> is the encryption of \<open>Ctr0\<close>; \<open>ctrCrypt\<close> is the XOR with the CTR key stream
  that starts at \<open>Ctr1\<close>. \<open>sealMacInput\<close> is what the slice \<open>plaintext\<close> holds when \<open>Seal\<close>
  passes it to \<open>getTag\<close>: the plaintext, or the ciphertext written over it when
  \<open>dst = plaintext[:0]\<close> has the capacity for the \<open>len(plaintext) + 16\<close> bytes that
  \<open>Seal\<close> asks for. \<open>sealThenOpen\<close> is \<open>Open(nil, nonce, Seal(nil, nonce, pt, ad), ad)\<close>
  on one instance, \<open>None\<close> when \<open>Seal\<close> returns no slice.
\<close>

definition S0 :: "ccm \<Rightarrow> bytes \<Rightarrow> bytes" where
  "S0 c nonce = Encrypt (blockCipher c) (formatCtr0 c nonce)"

definition ctrCrypt :: "ccm \<Rightarrow> bytes \<Rightarrow> bytes \<Rightarrow> bytes" where
  "ctrCrypt c nonce xs =
     map2 (XOR) xs (keyStream (blockCipher c) ((formatCtr0 c nonce)[15 := 1])
                      ((length xs + 15) div 16))"

definition sealMacInput :: "ccm \<Rightarrow> dstSlice \<Rightarrow> bytes \<Rightarrow> bytes \<Rightarrow> bytes" where
  "sealMacInput c dst nonce pt =
     (case dst of
        Apart xs \<Rightarrow> pt
      | InPlace k \<Rightarrow> if length pt + 16 \<le> k then ctrCrypt c nonce pt else pt)"

definition sealThenOpen :: "ccm \<Rightarrow> bytes \<Rightarrow> bytes \<Rightarrow> bytes \<Rightarrow> (error + bytes) option" where
  "sealThenOpen c nonce pt ad =
     (case Seal c (Apart []) nonce pt ad of
        (Inr (Some out), c') \<Rightarrow> Some (fst (Open c' (Apart []) nonce out ad))
      | _ \<Rightarrow> None)"

text \<open>The number that a byte string denotes when it is read big-endian.\<close>

definition beValue :: "bytes \<Rightarrow> nat" where
  "beValue bs = foldl (\<lambda>a b. 256 * a + unat b) 0 bs"

text \<open>
  CBC-MAC as the standard has it, to compare the accumulator with: from the chaining value
  \<open>y\<close>, each 16-byte block of the input is XORed into the chaining value, which is then
  encrypted; a last block that is short counts as padded with zero bytes.
\<close>

definition xorBlock :: "bytes \<Rightarrow> bytes \<Rightarrow> bytes" where
  "xorBlock y blk = map2 (XOR) y (blk @ replicate (length y - length blk) 0)"

function cbcMacOf :: "cipherBlock \<Rightarrow> bytes \<Rightarrow> bytes \<Rightarrow> bytes" where
  "cbcMacOf b y xs =
     (if xs = [] then y
      else cbcMacOf b (Encrypt b (xorBlock y (take 16 xs))) (drop 16 xs))"
  by pat_completeness auto
termination
  by (relation "measure (\<lambda>(b, y, xs). length xs)") auto

declare cbcMacOf.simps [simp del]

section \<open>The block cipher and the CBC-MAC accumulator\<close>

lemma block_ok_length: "block_ok b \<Longrightarrow> BlockSize b = 16 \<Longrightarrow> length x = 16 \<Longrightarrow> length (Encrypt b x) = 16"
  unfolding block_ok_def by (metis of_nat_eq_iff of_nat_numeral)

lemma exampleBlock_ok: "block_ok exampleBlock"
  by (simp add: block_ok_def exampleBlock_def)

lemma mac_inv_new: "block_ok b \<Longrightarrow> BlockSize b = 16 \<Longrightarrow> mac_inv (newCBCMACFromBlock b)"
  by (simp add: mac_inv_def newCBCMACFromBlock_def)

text \<open>
  The index of \<open>mac.ci[mac.p]\<close> in \<open>Write\<close> is inside the slice: after the guard of the
  loop body the cursor is at least 0 and below \<open>len(mac.ci)\<close>.
\<close>

lemma Write_index_in_range:
  assumes "mac_inv m"
  shows "(let m1 = (if p m \<ge> int (length (ci m))
                     then m\<lparr>ci := Encrypt (block m) (ci m), p := 0\<rparr>
                     else m)
          in 0 \<le> p m1 \<and> nat (p m1) < length (ci m1))"
  using assms by (auto simp: mac_inv_def Let_def block_ok_length)

lemma mac_inv_writeByte: "mac_inv m \<Longrightarrow> mac_inv (writeByte m c)"
  by (auto simp: mac_inv_def writeByte_def Let_def block_ok_length)

lemma p_writeByte: "mac_inv m \<Longrightarrow> p (writeByte m c) = (if p m = 16 then 1 else p m + 1)"
  by (auto simp: mac_inv_def writeByte_def Let_def)

lemma mac_inv_Write: "mac_inv m \<Longrightarrow> mac_inv (Write m bs)"
  by (induction bs arbitrary: m) (simp_all add: mac_inv_writeByte)

lemma p_Write:
  "mac_inv m \<Longrightarrow> bs \<noteq> [] \<Longrightarrow> p (Write m bs) = (p m + int (length bs) - 1) mod 16 + 1"
proof (induction bs arbitrary: m)
  case Nil
  then show ?case by simp
next
  case (Cons c cs)
  have inv': "mac_inv (writeByte m c)" using Cons.prems(1) by (rule mac_inv_writeByte)
  have bounds: "0 \<le> p m" "p m \<le> 16" using Cons.prems(1) by (simp_all add: mac_inv_def)
  show ?case
  proof (cases "cs = []")
    case True
    with bounds show ?thesis by (simp add: p_writeByte [OF Cons.prems(1)])
  next
    case False
    have "p (Write (writeByte m c) cs) = (p (writeByte m c) + int (length cs) - 1) mod 16 + 1"
      using Cons.IH [OF inv' False] .
    with bounds show ?thesis
      by (auto simp: p_writeByte [OF Cons.prems(1)] algebra_simps)
  qed
qed

lemma mac_inv_PadZero: "mac_inv m \<Longrightarrow> mac_inv (PadZero m)"
  by (auto simp: mac_inv_def PadZero_def block_ok_length)

lemma mac_inv_Sum: "mac_inv m \<Longrightarrow> mac_inv (snd (Sum m b))"
  by (auto simp: mac_inv_def Sum_def Let_def block_ok_length)

lemma mac_inv_Reset: "mac_inv m \<Longrightarrow> mac_inv (Reset m)"
  by (auto simp: mac_inv_def Reset_def)

lemma mac_inv_applyOp: "mac_inv m \<Longrightarrow> mac_inv (applyOp m x)"
  by (cases x) (simp_all add: mac_inv_Write mac_inv_PadZero mac_inv_Sum mac_inv_Reset)

lemma mac_inv_foldl: "mac_inv m \<Longrightarrow> mac_inv (foldl applyOp m ops)"
  by (induction ops arbitrary: m) (simp_all add: mac_inv_applyOp)

text \<open>
  C9 (amended). From a fresh accumulator over a 16-byte cipher, after every sequence of
  \<open>Write\<close>, \<open>PadZero\<close>, \<open>Sum\<close> and \<open>Reset\<close> the cursor is between 0 and 16, both
  included. \<open>Write\<close> encrypts and resets the cursor only when a further byte arrives
  while the cursor is at the block size: writing a non-empty string from cursor \<open>p\<close>
  leaves the cursor at \<open>(p + len - 1) mod 16 + 1\<close>, between 1 and 16, so a write that
  ends on a block boundary leaves it at 16. \<open>PadZero\<close>, \<open>Sum\<close> and \<open>Reset\<close> leave it
  at 0.
\<close>

theorem cursor_bounds:
  fixes b :: cipherBlock and ops :: "macOp list" and bs out :: bytes
  assumes "block_ok b" and "BlockSize b = 16"
  defines "m \<equiv> runOps (newCBCMACFromBlock b) ops"
  shows "0 \<le> p m \<and> p m \<le> 16
       \<and> (bs \<noteq> [] \<longrightarrow> p (Write m bs) = (p m + int (length bs) - 1) mod 16 + 1)
       \<and> p (Write m []) = p m
       \<and> p (PadZero m) = 0 \<and> p (snd (Sum m out)) = 0 \<and> p (Reset m) = 0"
proof -
  have inv: "mac_inv m"
    unfolding m_def runOps_def using assms(1,2) by (intro mac_inv_foldl mac_inv_new)
  then have "0 \<le> p m \<and> p m \<le> 16" by (simp add: mac_inv_def)
  moreover have "bs \<noteq> [] \<longrightarrow> p (Write m bs) = (p m + int (length bs) - 1) mod 16 + 1"
    using p_Write [OF inv] by blast
  moreover have "p (PadZero m) = 0" by (simp add: PadZero_def)
  moreover have "p (snd (Sum m out)) = 0" by (simp add: Sum_def Let_def)
  moreover have "p (Reset m) = 0" by (simp add: Reset_def)
  ultimately show ?thesis by simp
qed

theorem cursor_bounds_witness:
  "block_ok exampleBlock \<and> BlockSize exampleBlock = 16 \<and> exampleBytes16 \<noteq> []
   \<and> p (Write (runOps (newCBCMACFromBlock exampleBlock) [OpWrite [1, 2, 3], OpPadZero]) exampleBytes16) = 16"
  using cursor_bounds [where b = exampleBlock and bs = exampleBytes16
      and ops = "[OpWrite [1, 2, 3], OpPadZero]"] exampleBlock_ok
  by (simp add: exampleBlock_def exampleBytes16_def runOps_def PadZero_def)

text \<open>
  C9 as stated fails: after 16 bytes written to a fresh accumulator the cursor is 16,
  not below 16.
\<close>

theorem cursor_16_counterexample:
  "\<not> p (Write (newCBCMACFromBlock exampleBlock) exampleBytes16) < 16"
  by (simp add: newCBCMACFromBlock_def exampleBlock_def exampleBytes16_def writeByte_def)

section \<open>Construction\<close>

text \<open>
  C8. \<open>NewCCM\<close> fails with \<open>ErrInvalidBlockSize\<close> exactly when the block size is not 16;
  otherwise with \<open>ErrInvalidNonceSize\<close> exactly when the nonce size is outside 7..13;
  otherwise with \<open>ErrInvalidTagSize\<close> exactly when the tag size is outside 4..16 or odd;
  otherwise it returns the instance with these parameters and a fresh accumulator. In
  particular nonce sizes 6 and 14 and tag sizes 3, 5 and 18 are rejected.
\<close>

theorem NewCCM_validation:
  "(NewCCM blk n t = Inl ErrInvalidBlockSize \<longleftrightarrow> BlockSize blk \<noteq> 16)
   \<and> (BlockSize blk = 16 \<longrightarrow>
        (NewCCM blk n t = Inl ErrInvalidNonceSize \<longleftrightarrow> n < 7 \<or> 13 < n))
   \<and> (BlockSize blk = 16 \<and> 7 \<le> n \<and> n \<le> 13 \<longrightarrow>
        (NewCCM blk n t = Inl ErrInvalidTagSize \<longleftrightarrow> t < 4 \<or> 16 < t \<or> odd t))
   \<and> (BlockSize blk = 16 \<and> 7 \<le> n \<and> n \<le> 13 \<and> 4 \<le> t \<and> t \<le> 16 \<and> even t \<longrightarrow>
        NewCCM blk n t = Inr \<lparr>blockCipher = blk, mac = newCBCMACFromBlock blk,
                               nonceSize = n, tagSize = t\<rparr>)
   \<and> (BlockSize blk = 16 \<longrightarrow>
        NewCCM blk 6 t = Inl ErrInvalidNonceSize \<and> NewCCM blk 14 t = Inl ErrInvalidNonceSize
        \<and> (7 \<le> n \<and> n \<le> 13 \<longrightarrow>
             NewCCM blk n 3 = Inl ErrInvalidTagSize \<and> NewCCM blk n 5 = Inl ErrInvalidTagSize
             \<and> NewCCM blk n 18 = Inl ErrInvalidTagSize))"
proof -
  have bit: "k AND 1 = 0 \<longleftrightarrow> even k" for k :: int
    by (simp add: and_one_eq even_iff_mod_2_eq_zero)
  have r1: "NewCCM blk n' t' = Inl ErrInvalidBlockSize" if "BlockSize blk \<noteq> 16" for n' t'
    using that by (simp add: NewCCM_def CbcMacBlockSize_def)
  have r2: "NewCCM blk n' t' = Inl ErrInvalidNonceSize"
    if "BlockSize blk = 16" and "n' < 7 \<or> 13 < n'" for n' t'
    using that by (auto simp: NewCCM_def CbcMacBlockSize_def)
  have r3: "NewCCM blk n' t' = Inl ErrInvalidTagSize"
    if "BlockSize blk = 16" and "7 \<le> n'" and "n' \<le> 13" and "t' < 4 \<or> 16 < t' \<or> odd t'"
    for n' t'
    using that by (auto simp: NewCCM_def CbcMacBlockSize_def bit)
  have r4: "NewCCM blk n' t' = Inr \<lparr>blockCipher = blk, mac = newCBCMACFromBlock blk,
                               nonceSize = n', tagSize = t'\<rparr>"
    if "BlockSize blk = 16" and "7 \<le> n'" and "n' \<le> 13" and "4 \<le> t'" and "t' \<le> 16" and "even t'"
    for n' t'
    using that by (simp add: NewCCM_def CbcMacBlockSize_def bit)
  consider (block) "BlockSize blk \<noteq> 16"
    | (nonce) "BlockSize blk = 16" "n < 7 \<or> 13 < n"
    | (tag) "BlockSize blk = 16" "7 \<le> n" "n \<le> 13" "t < 4 \<or> 16 < t \<or> odd t"
    | (ok) "BlockSize blk = 16" "7 \<le> n" "n \<le> 13" "4 \<le> t" "t \<le> 16" "even t"
    by linarith
  then have main:
    "(NewCCM blk n t = Inl ErrInvalidBlockSize \<longleftrightarrow> BlockSize blk \<noteq> 16)
     \<and> (BlockSize blk = 16 \<longrightarrow>
          (NewCCM blk n t = Inl ErrInvalidNonceSize \<longleftrightarrow> n < 7 \<or> 13 < n))
     \<and> (BlockSize blk = 16 \<and> 7 \<le> n \<and> n \<le> 13 \<longrightarrow>
          (NewCCM blk n t = Inl ErrInvalidTagSize \<longleftrightarrow> t < 4 \<or> 16 < t \<or> odd t))"
  proof cases
    case block
    then show ?thesis by (simp add: r1)
  next
    case nonce
    then show ?thesis using r2 [OF nonce, of t] by auto
  next
    case tag
    then show ?thesis using r3 [OF tag] by auto
  next
    case ok
    then show ?thesis using r4 [OF ok] by auto
  qed
  moreover have "NewCCM blk 6 t = Inl ErrInvalidNonceSize" "NewCCM blk 14 t = Inl ErrInvalidNonceSize"
    if "BlockSize blk = 16"
    using that by (simp_all add: r2)
  moreover have "NewCCM blk n 3 = Inl ErrInvalidTagSize" "NewCCM blk n 5 = Inl ErrInvalidTagSize"
      "NewCCM blk n 18 = Inl ErrInvalidTagSize"
    if "BlockSize blk = 16" and "7 \<le> n" and "n \<le> 13"
    using that by (simp_all add: r3)
  ultimately show ?thesis using r4 [of n t] by blast
qed

theorem NewCCM_validation_witness:
  "BlockSize exampleBlock = 16 \<and> (7::int) \<le> 13 \<and> (4::int) \<le> 16 \<and> even (4::int)
   \<and> NewCCM exampleBlock 13 4 = Inr \<lparr>blockCipher = exampleBlock, mac = newCBCMACFromBlock exampleBlock,
                               nonceSize = 13, tagSize = 4\<rparr>
   \<and> NewCCM exampleBlock 6 4 = Inl ErrInvalidNonceSize
   \<and> NewCCM exampleBlock 13 5 = Inl ErrInvalidTagSize"
  using NewCCM_validation [of exampleBlock 13 4] by (simp add: exampleBlock_def)

section \<open>Instances and the conversions to uint64\<close>

lemma NewCCM_Inr:
  assumes "NewCCM blk n t = Inr c"
  shows "BlockSize blk = 16" and "7 \<le> n" and "n \<le> 13" and "4 \<le> t" and "t \<le> 16" and "even t"
    and "c = \<lparr>blockCipher = blk, mac = newCBCMACFromBlock blk, nonceSize = n, tagSize = t\<rparr>"
proof -
  have a: "BlockSize blk = CbcMacBlockSize"
    using assms unfolding NewCCM_def by (cases "BlockSize blk = CbcMacBlockSize") simp_all
  have b: "7 \<le> n \<and> n \<le> 13"
    using assms a unfolding NewCCM_def by (cases "7 \<le> n \<and> n \<le> 13") simp_all
  have d: "4 \<le> t \<and> t \<le> 16 \<and> t AND 1 = 0"
    using assms a b unfolding NewCCM_def by (cases "4 \<le> t \<and> t \<le> 16 \<and> t AND 1 = 0") simp_all
  show "BlockSize blk = 16" using a by (simp add: CbcMacBlockSize_def)
  show "7 \<le> n" "n \<le> 13" using b by simp_all
  show "4 \<le> t" "t \<le> 16" using d by simp_all
  show "even t" using d by (simp add: and_one_eq even_iff_mod_2_eq_zero)
  show "c = \<lparr>blockCipher = blk, mac = newCBCMACFromBlock blk, nonceSize = n, tagSize = t\<rparr>"
    using assms a b d unfolding NewCCM_def by simp
qed

lemma NewCCM_inv:
  assumes "block_ok blk" and "NewCCM blk n t = Inr c"
  shows "ccm_inv c"
proof -
  note r = NewCCM_Inr [OF assms(2)]
  have "mac_inv (newCBCMACFromBlock blk)" using assms(1) r(1) by (rule mac_inv_new)
  moreover have "block (newCBCMACFromBlock blk) = blk" by (simp add: newCBCMACFromBlock_def)
  ultimately show ?thesis
    unfolding ccm_inv_def using r(2-6) by (simp add: r(7))
qed

lemma exampleCCM_inv: "ccm_inv exampleCCM"
proof -
  have "NewCCM exampleBlock 13 4 = Inr exampleCCM"
    by (simp add: NewCCM_def exampleCCM_def CbcMacBlockSize_def exampleBlock_def)
  with exampleBlock_ok show ?thesis by (rule NewCCM_inv)
qed

lemma ccm_inv_block:
  assumes "ccm_inv c"
  shows "block_ok (blockCipher c)" and "BlockSize (blockCipher c) = 16"
  using assms by (auto simp: ccm_inv_def mac_inv_def)

lemma uint_woi: "0 \<le> k \<Longrightarrow> k < 2 ^ 64 \<Longrightarrow> uint (word_of_int k :: 64 word) = k"
  by (simp add: uint_word_of_int_eq take_bit_int_eq_self)

lemma uint_maxUnsignedVarInt:
  assumes "0 \<le> n" and "n \<le> 8"
  shows "uint (maxUnsignedVarInt n) = 2 ^ nat (8 * n) - 1"
proof -
  have "nat (8 * n) \<le> 64" using assms by simp
  then have "(2::int) ^ nat (8 * n) \<le> 2 ^ 64" by (intro power_increasing) simp_all
  then have "(2::int) ^ nat (8 * n) - 1 < 2 ^ 64" by simp
  moreover have "0 \<le> (2::int) ^ nat (8 * n) - 1" by simp
  ultimately show ?thesis
    unfolding maxUnsignedVarInt_def by (rule uint_woi [rotated])
qed

lemma uint_of_nat_len: "n < 2 ^ 64 \<Longrightarrow> uint (of_nat n :: 64 word) = int n"
proof -
  assume "n < 2 ^ 64"
  then have "int n < 2 ^ 64" by (metis of_nat_less_iff of_nat_numeral of_nat_power)
  then have "uint (word_of_int (int n) :: 64 word) = int n" by (intro uint_woi) simp_all
  then show ?thesis by simp
qed

lemma payload_guard_Seal:
  assumes "7 \<le> N" "N \<le> 13" "length pt < 2 ^ 64"
  shows "maxUnsignedVarInt (15 - N) < (of_nat (length pt) :: 64 word) \<longleftrightarrow> maxPayload N < int (length pt)"
proof -
  have a: "uint (maxUnsignedVarInt (15 - N)) = maxPayload N"
    unfolding maxPayload_def using assms(1,2) by (intro uint_maxUnsignedVarInt) simp_all
  show ?thesis
    by (simp only: word_less_def a uint_of_nat_len [OF assms(3)])
qed

lemma payload_guard_Open:
  assumes "7 \<le> N" "N \<le> 13" "length ct < 2 ^ 64" "T < int (length ct)" "0 \<le> T"
  shows "maxUnsignedVarInt (15 - N) < (word_of_int (int (length ct) - T) :: 64 word)
         \<longleftrightarrow> maxPayload N < int (length ct) - T"
proof -
  have a: "uint (maxUnsignedVarInt (15 - N)) = maxPayload N"
    unfolding maxPayload_def using assms(1,2) by (intro uint_maxUnsignedVarInt) simp_all
  have "int (length ct) < 2 ^ 64"
    using assms(3) by (metis of_nat_less_iff of_nat_numeral of_nat_power)
  then have "int (length ct) - T < 2 ^ 64" "0 \<le> int (length ct) - T" using assms(4,5) by simp_all
  then have b: "uint (word_of_int (int (length ct) - T) :: 64 word) = int (length ct) - T"
    by (intro uint_woi)
  show ?thesis
    by (simp only: word_less_def a b)
qed

text \<open>
  The slice bounds of \<open>getTag\<close>, \<open>Seal\<close> and \<open>Open\<close> are inside their slices: the field
  \<open>cpy[1+c.nonceSize:]\<close> of the 16-byte counter block, and \<open>T[:c.tagSize]\<close> and
  \<open>ret[:len(plaintext)+c.tagSize]\<close> for a tag and a scratch region of \<open>c.mac.Size()\<close>
  bytes.
\<close>

lemma slice_bounds_in_range:
  assumes "ccm_inv c"
  shows "0 \<le> 1 + nonceSize c" and "nat (1 + nonceSize c) \<le> 16"
    and "0 \<le> tagSize c" and "tagSize c \<le> Size (mac c)" and "Size (mac c) = 16"
  using assms by (auto simp: ccm_inv_def mac_inv_def Size_def)

section \<open>The tag computation\<close>

lemma length_putUVarInt [simp]: "length (putUVarInt bs u) = length bs"
  by (simp add: putUVarInt_def)

lemma putUVarInt_beBytes: "putUVarInt bs u = beBytes (length bs) u"
  by (simp add: putUVarInt_def beBytes_def)

lemma length_beBytes [simp]: "length (beBytes w u) = w"
  by (simp add: beBytes_def)

lemma Sum_PadZero: "Sum m b = (b @ ci (PadZero m), PadZero m)"
  by (simp add: Sum_def PadZero_def Let_def)

lemma PadZero_idem: "PadZero (PadZero m) = PadZero m"
  by (simp add: PadZero_def)

lemma take2_upd: "2 \<le> length xs \<Longrightarrow> take 2 (xs[0 := a, Suc 0 := b]) = [a, b]"
  by (cases xs; cases "tl xs") (auto simp: numeral_2_eq_2)

lemma formatCtr0_eq:
  assumes "int (length nonce) = nonceSize c" and "nonceSize c \<le> 15"
  shows "formatCtr0 c nonce =
           word_of_int (15 - nonceSize c - 1) # nonce @ replicate (15 - length nonce) 0"
proof -
  have r: "replicate 16 (0::byte) = 0 # replicate 15 0"
    by (simp add: numeral_eq_Suc)
  have "length nonce \<le> 15" using assms by linarith
  then show ?thesis
    unfolding formatCtr0_def Let_def r onSlice_def copyBytes_def
    by (simp add: min_def)
qed

lemma length_formatCtr0 [simp]: "length (formatCtr0 c nonce) = 16"
  by (simp add: formatCtr0_def Let_def onSlice_def copyBytes_def)

lemma B0_eq:
  assumes "int (length nonce) = nonceSize c" and "nonceSize c \<le> 13"
  shows "B0 c nonce ad pt =
           (word_of_int (15 - nonceSize c - 1) OR (word_of_int (push_bit 3 ((tagSize c - 2) div 2))
              OR (if ad = [] then 0 else push_bit 6 1)))
           # nonce @ beBytes (15 - length nonce) (of_nat (length pt))"
proof -
  have n: "length nonce \<le> 13" "nat (1 + nonceSize c) = Suc (length nonce)"
    using assms by linarith+
  show ?thesis
    unfolding B0_def Let_def formatCtr0_eq [OF assms(1)] onSlice_def
    using assms n
    by (simp add: formatCtr0_eq putUVarInt_beBytes)
qed

lemma prefix_short:
  "2 \<le> length cpy \<Longrightarrow>
   take 2 (onSlice 0 2 (\<lambda>s. putUVarInt s u) cpy) = beBytes 2 u"
  by (simp add: onSlice_def putUVarInt_beBytes)

lemma prefix_mid:
  "6 \<le> length cpy \<Longrightarrow>
   take 6 (onSlice 2 6 (\<lambda>s. putUVarInt s u) (cpy[0 := a, Suc 0 := b]))
     = [a, b] @ beBytes 4 u"
  by (simp add: onSlice_def take2_upd putUVarInt_beBytes)

lemma prefix_long:
  "10 \<le> length cpy \<Longrightarrow>
   take 10 (onSlice 2 10 (\<lambda>s. putUVarInt s u) (cpy[0 := a, Suc 0 := b]))
     = [a, b] @ beBytes 8 u"
  by (simp add: onSlice_def take2_upd putUVarInt_beBytes)

lemma write_prefix:
  assumes "length cpy = 16"
  shows "(if int n < push_bit 15 1 - push_bit 7 1 then
            (let cpy = onSlice 0 2 (\<lambda>s. putUVarInt s (of_nat n)) cpy
             in Write m (take 2 cpy))
          else if int n \<le> push_bit 31 1 - 1 then
            (let cpy = cpy[0 := 0xff, 1 := 0xfe];
                 cpy = onSlice 2 6 (\<lambda>s. putUVarInt s (of_nat n)) cpy
             in Write m (take 6 cpy))
          else
            (let cpy = cpy[0 := 0xff, 1 := 0xff];
                 cpy = onSlice 2 10 (\<lambda>s. putUVarInt s (of_nat n)) cpy
             in Write m (take 10 cpy)))
         = Write m (adataPrefix n)"
  using assms
  by (simp add: adataPrefix_def prefix_short prefix_mid prefix_long Let_def del: Write.simps)

lemma getTag_unfold:
  assumes "length ctr = 16"
  shows "getTag c ctr ad pt =
     (let cpy = ctr[0 := (ctr ! 0) OR word_of_int (push_bit 3 ((tagSize c - 2) sdiv 2))];
          cpy = onSlice (nat (1 + nonceSize c)) 16
                  (\<lambda>s. putUVarInt s (of_nat (length pt))) cpy;
          cpy = (if ad = [] then cpy else cpy[0 := (cpy ! 0) OR push_bit 6 1]);
          m = Write (Reset (mac c)) cpy;
          m = (if ad = [] then m
               else PadZero (Write (Write m (adataPrefix (length ad))) ad));
          m = PadZero (Write m pt)
      in (ci m, c\<lparr>mac := m\<rparr>))"
proof -
  define cpy1 where "cpy1 = ctr[0 := (ctr ! 0) OR word_of_int (push_bit 3 ((tagSize c - 2) sdiv 2))]"
  define cpy2 where "cpy2 = onSlice (nat (1 + nonceSize c)) 16
                  (\<lambda>s. putUVarInt s (of_nat (length pt))) cpy1"
  define cpy3 where "cpy3 = cpy2[0 := (cpy2 ! 0) OR push_bit 6 1]"
  have l1: "length cpy1 = 16" by (simp add: cpy1_def assms)
  have l2: "length cpy2 = 16" by (simp add: cpy2_def onSlice_def l1)
  have l3: "length cpy3 = 16" by (simp add: cpy3_def l2)
  have "getTag c ctr ad pt =
     (let m = (if ad = [] then Write (Reset (mac c)) cpy2
               else PadZero (Write (Write (Write (Reset (mac c)) cpy3) (adataPrefix (length ad))) ad));
          m = PadZero (Write m pt)
      in (ci m, c\<lparr>mac := m\<rparr>))"
    unfolding getTag_def Let_def
    apply (fold cpy1_def)
    apply (simp only: l1)
    apply (fold cpy2_def)
    apply (fold cpy3_def)
    apply (simp only: write_prefix [OF l3, unfolded Let_def])
    apply (simp add: Sum_PadZero PadZero_idem del: Write.simps)
    done
  then show ?thesis
    unfolding Let_def cpy1_def cpy2_def cpy3_def by (simp del: Write.simps)
qed

lemma getTag_aux:
  assumes "ccm_inv c" and "int (length nonce) = nonceSize c" and "length zs = 15 - length nonce"
  shows "getTag c (word_of_int (15 - nonceSize c - 1) # nonce @ zs) ad pt =
           (ci (ccmMac c nonce ad pt), c\<lparr>mac := ccmMac c nonce ad pt\<rparr>)"
proof -
  have n: "7 \<le> length nonce" "length nonce \<le> 13" "nat (1 + nonceSize c) = Suc (length nonce)"
    and N: "nonceSize c \<le> 13"
    and t: "4 \<le> tagSize c"
    using assms(1,2) unfolding ccm_inv_def by linarith+
  have sd: "(tagSize c - 2) sdiv 2 = (tagSize c - 2) div 2"
    using t by (simp add: signed_divide_int_def sgn_if)
  have len: "length (word_of_int (15 - nonceSize c - 1) # nonce @ zs) = 16"
    using n assms(3) by simp
  show ?thesis
    unfolding getTag_unfold [OF len] ccmMac_def Let_def B0_eq [OF assms(2) N] sd
    using n assms(3)
    by (simp add: onSlice_def putUVarInt_beBytes word_bw_assocs del: Write.simps)
qed

lemma getTag_ccmMac:
  assumes "ccm_inv c" and "int (length nonce) = nonceSize c"
  shows "getTag c (formatCtr0 c nonce) ad pt =
           (ci (ccmMac c nonce ad pt), c\<lparr>mac := ccmMac c nonce ad pt\<rparr>)"
    and "getTag c ((formatCtr0 c nonce)[15 := 1]) ad pt =
           (ci (ccmMac c nonce ad pt), c\<lparr>mac := ccmMac c nonce ad pt\<rparr>)"
proof -
  have n: "7 \<le> length nonce" "length nonce \<le> 13" and N: "nonceSize c \<le> 15"
    using assms(1,2) unfolding ccm_inv_def by linarith+
  note c0 = formatCtr0_eq [OF assms(2) N]
  show "getTag c (formatCtr0 c nonce) ad pt =
           (ci (ccmMac c nonce ad pt), c\<lparr>mac := ccmMac c nonce ad pt\<rparr>)"
    unfolding c0 by (rule getTag_aux [OF assms]) simp
  have "(formatCtr0 c nonce)[15 := 1] =
          word_of_int (15 - nonceSize c - 1) # nonce
            @ (replicate (15 - length nonce) 0)[14 - length nonce := 1]"
    unfolding c0 using n by (simp add: list_update_append numeral_eq_Suc)
  then show "getTag c ((formatCtr0 c nonce)[15 := 1]) ad pt =
           (ci (ccmMac c nonce ad pt), c\<lparr>mac := ccmMac c nonce ad pt\<rparr>)"
    by (simp only: getTag_aux [OF assms] length_list_update length_replicate)
qed

lemma block_writeByte [simp]: "block (writeByte m c) = block m"
  by (simp add: writeByte_def Let_def)

lemma block_Write [simp]: "block (Write m bs) = block m"
  by (induction bs arbitrary: m) simp_all

lemma block_PadZero [simp]: "block (PadZero m) = block m"
  by (simp add: PadZero_def)

lemma block_Reset [simp]: "block (Reset m) = block m"
  by (simp add: Reset_def)

lemma mac_inv_ccmMac: "mac_inv (mac c) \<Longrightarrow> mac_inv (ccmMac c nonce ad pt)"
  by (simp add: ccmMac_def Let_def mac_inv_Write mac_inv_PadZero mac_inv_Reset del: Write.simps)

lemma block_ccmMac [simp]: "block (ccmMac c nonce ad pt) = block (mac c)"
  by (simp add: ccmMac_def Let_def del: Write.simps)

lemma length_ccmMac:
  assumes "ccm_inv c"
  shows "length (ci (ccmMac c nonce ad pt)) = 16"
proof -
  have "mac_inv (mac c)" using assms by (simp add: ccm_inv_def)
  from mac_inv_ccmMac [OF this] show ?thesis by (simp add: mac_inv_def)
qed

lemma ccm_inv_ccmMac: "ccm_inv c \<Longrightarrow> ccm_inv (c\<lparr>mac := ccmMac c nonce ad pt\<rparr>)"
  by (simp add: ccm_inv_def mac_inv_ccmMac)

lemma Reset_eq:
  "mac_inv m \<Longrightarrow> Reset m = \<lparr>ci = replicate 16 0, p = 0, block = block m\<rparr>"
  by (simp add: Reset_def mac_inv_def map_replicate_const)

lemma ccmMac_mac_cong:
  assumes "mac_inv (mac c)" and "mac_inv m'" and "block m' = block (mac c)"
  shows "ccmMac (c\<lparr>mac := m'\<rparr>) nonce ad pt = ccmMac c nonce ad pt"
  unfolding ccmMac_def B0_def formatCtr0_def Let_def
  by (simp add: Reset_eq assms del: Write.simps)

section \<open>The accumulator computes CBC-MAC\<close>

lemma length_xorBlock: "length blk \<le> length y \<Longrightarrow> length (xorBlock y blk) = length y"
  by (simp add: xorBlock_def)

lemma writeByte_below:
  "nat k < length Y \<Longrightarrow> 0 \<le> k \<Longrightarrow>
   writeByte \<lparr>ci = Y, p = k, block = b\<rparr> c
     = \<lparr>ci = Y[nat k := (Y ! nat k) XOR c], p = k + 1, block = b\<rparr>"
  by (simp add: writeByte_def Let_def)

lemma Write_partial:
  "k + length xs \<le> length Y \<Longrightarrow>
   Write \<lparr>ci = Y, p = int k, block = b\<rparr> xs
     = \<lparr>ci = take k Y @ map2 (XOR) (take (length xs) (drop k Y)) xs @ drop (k + length xs) Y,
        p = int (k + length xs), block = b\<rparr>"
proof (induction xs arbitrary: k Y)
  case Nil
  then show ?case by simp
next
  case (Cons c cs)
  have k: "k < length Y" using Cons.prems by simp
  have step: "writeByte \<lparr>ci = Y, p = int k, block = b\<rparr> c
                = \<lparr>ci = Y[k := (Y ! k) XOR c], p = int (Suc k), block = b\<rparr>"
    using writeByte_below [of "int k" Y b c] k by (simp add: add.commute)
  have len: "Suc k + length cs \<le> length (Y[k := (Y ! k) XOR c])" using Cons.prems by simp
  have upd: "Y[k := (Y ! k) XOR c] = take k Y @ ((Y ! k) XOR c) # drop (Suc k) Y"
    using k by (simp add: upd_conv_take_nth_drop)
  have d: "drop k Y = (Y ! k) # drop (Suc k) Y" using k by (simp add: Cons_nth_drop_Suc)
  have lk: "length (take k Y) = k" and mk: "min (length Y) k = k" using k by simp_all
  show ?case
    unfolding Write.simps step Cons.IH [OF len]
    apply (simp add: d)
    apply (simp add: upd lk mk)
    done
qed

lemma map2_xor_zero: "map2 (XOR) Y (replicate (length Y) 0) = (Y :: bytes)"
  by (induction Y) simp_all

lemma xorBlock_eq:
  "length xs \<le> length Y \<Longrightarrow>
   xorBlock Y xs = map2 (XOR) (take (length xs) Y) xs @ drop (length xs) Y"
proof (induction xs arbitrary: Y)
  case Nil
  then show ?case by (simp add: xorBlock_def map2_xor_zero)
next
  case (Cons c cs)
  then obtain y ys where Y: "Y = y # ys" by (cases Y) auto
  with Cons.prems have "length cs \<le> length ys" by simp
  from Cons.IH [OF this] show ?case
    unfolding Y by (simp add: xorBlock_def)
qed

lemma Write_first_block:
  assumes "length Y = 16" and "length xs \<le> 16"
  shows "Write \<lparr>ci = Y, p = 0, block = b\<rparr> xs
           = \<lparr>ci = xorBlock Y xs, p = int (length xs), block = b\<rparr>"
  using Write_partial [of 0 xs Y b] assms by (simp add: xorBlock_eq)

lemma Write_append: "Write m (xs @ ys) = Write (Write m xs) ys"
  by (induction xs arbitrary: m) simp_all

lemma writeByte_full:
  assumes "block_ok b" and "BlockSize b = 16" and "length Z = 16"
  shows "writeByte \<lparr>ci = Z, p = 16, block = b\<rparr> c
           = writeByte \<lparr>ci = Encrypt b Z, p = 0, block = b\<rparr> c"
  using block_ok_length [OF assms] assms(3) by (simp add: writeByte_def Let_def)

lemma PadZero_Write_cbc:
  assumes "block_ok b" and "BlockSize b = 16"
  shows "length Y = 16 \<Longrightarrow>
         PadZero (Write \<lparr>ci = Y, p = 0, block = b\<rparr> xs)
           = \<lparr>ci = cbcMacOf b Y xs, p = 0, block = b\<rparr>"
proof (induction xs arbitrary: Y rule: length_induct)
  case (1 xs)
  note lenY = \<open>length Y = 16\<close>
  consider (empty) "xs = []" | (one) "xs \<noteq> []" "length xs \<le> 16" | (more) "16 < length xs"
    by linarith
  then show ?case
  proof cases
    case empty
    then show ?thesis by (simp add: PadZero_def cbcMacOf.simps)
  next
    case one
    have "cbcMacOf b Y xs = Encrypt b (xorBlock Y xs)"
      using one by (simp add: cbcMacOf.simps [of b Y xs] cbcMacOf.simps [of b _ "[]"])
    moreover have "int (length xs) \<noteq> 0" using one(1) by simp
    ultimately show ?thesis
      unfolding Write_first_block [OF lenY one(2)] by (simp add: PadZero_def)
  next
    case more
    let ?Z = "xorBlock Y (take 16 xs)"
    have lenZ: "length ?Z = 16" using more lenY by (simp add: length_xorBlock)
    have lenE: "length (Encrypt b ?Z) = 16" by (rule block_ok_length [OF assms lenZ])
    obtain c cs where rest: "drop 16 xs = c # cs" using more by (cases "drop 16 xs") auto
    have shorter: "length (drop 16 xs) < length xs" using more by simp
    have "Write \<lparr>ci = Y, p = 0, block = b\<rparr> xs
            = Write (Write \<lparr>ci = Y, p = 0, block = b\<rparr> (take 16 xs)) (drop 16 xs)"
      by (metis Write_append append_take_drop_id)
    also have "Write \<lparr>ci = Y, p = 0, block = b\<rparr> (take 16 xs) = \<lparr>ci = ?Z, p = 16, block = b\<rparr>"
      using Write_first_block [OF lenY, of "take 16 xs" b] more by simp
    also have "Write \<lparr>ci = ?Z, p = 16, block = b\<rparr> (drop 16 xs)
                 = Write \<lparr>ci = Encrypt b ?Z, p = 0, block = b\<rparr> (drop 16 xs)"
      unfolding rest Write.simps writeByte_full [OF assms lenZ] ..
    finally have "PadZero (Write \<lparr>ci = Y, p = 0, block = b\<rparr> xs)
                    = PadZero (Write \<lparr>ci = Encrypt b ?Z, p = 0, block = b\<rparr> (drop 16 xs))"
      by simp
    also have "\<dots> = \<lparr>ci = cbcMacOf b (Encrypt b ?Z) (drop 16 xs), p = 0, block = b\<rparr>"
      using "1.IH" shorter lenE by blast
    also have "cbcMacOf b (Encrypt b ?Z) (drop 16 xs) = cbcMacOf b Y xs"
    proof -
      have "xs \<noteq> []" using more by auto
      then show ?thesis by (simp add: cbcMacOf.simps [of b Y xs])
    qed
    finally show ?thesis .
  qed
qed

lemma cbcMacOf_block_append:
  assumes "length a = 16"
  shows "cbcMacOf b y (a @ xs) = cbcMacOf b (cbcMacOf b y a) xs"
proof -
  have ne: "a \<noteq> []" using assms by auto
  then show ?thesis
    using assms
    by (simp add: cbcMacOf.simps [of b y "a @ xs"] cbcMacOf.simps [of b y a]
        cbcMacOf.simps [of b _ "[]"])
qed

lemma length_B0: "length (B0 c nonce ad pt) = 16"
  by (simp add: B0_def Let_def onSlice_def)

lemma ccmMac_cbc:
  assumes "ccm_inv c"
  shows "ci (ccmMac c nonce ad pt) =
           cbcMacOf (blockCipher c)
             (cbcMacOf (blockCipher c) (replicate 16 0)
                (B0 c nonce ad pt @ (if ad = [] then [] else adataPrefix (length ad) @ ad)))
             pt"
proof -
  note b = ccm_inv_block [OF assms]
  have mi: "mac_inv (mac c)" and bm: "block (mac c) = blockCipher c"
    using assms by (simp_all add: ccm_inv_def)
  note r = Reset_eq [OF mi, unfolded bm]
  have z: "length (replicate 16 (0::byte)) = 16" by simp
  note pw = PadZero_Write_cbc [OF b]
  show ?thesis
  proof (cases "ad = []")
    case True
    have "ccmMac c nonce ad pt
            = PadZero (Write \<lparr>ci = replicate 16 0, p = 0, block = blockCipher c\<rparr>
                         (B0 c nonce ad pt @ pt))"
      unfolding ccmMac_def Let_def r using True by (simp add: Write_append del: Write.simps)
    then show ?thesis
      using True by (simp add: pw [OF z] cbcMacOf_block_append [OF length_B0])
  next
    case False
    let ?m = "PadZero (Write \<lparr>ci = replicate 16 0, p = 0, block = blockCipher c\<rparr>
                         (B0 c nonce ad pt @ adataPrefix (length ad) @ ad))"
    have m: "?m = \<lparr>ci = cbcMacOf (blockCipher c) (replicate 16 0)
                          (B0 c nonce ad pt @ adataPrefix (length ad) @ ad),
                   p = 0, block = blockCipher c\<rparr>"
      by (rule pw [OF z])
    have lm: "length (ci ?m) = 16"
      using mac_inv_PadZero [OF mac_inv_Write [of "\<lparr>ci = replicate 16 0, p = 0, block = blockCipher c\<rparr>"]]
        b by (simp add: mac_inv_def)
    have "ccmMac c nonce ad pt = PadZero (Write ?m pt)"
      unfolding ccmMac_def Let_def r using False by (simp add: Write_append del: Write.simps)
    also have "\<dots> = \<lparr>ci = cbcMacOf (blockCipher c)
                              (cbcMacOf (blockCipher c) (replicate 16 0)
                                 (B0 c nonce ad pt @ adataPrefix (length ad) @ ad)) pt,
                       p = 0, block = blockCipher c\<rparr>"
      unfolding m using lm [unfolded m] by (intro pw) simp
    finally show ?thesis using False by simp
  qed
qed

section \<open>Seal and Open in closed form\<close>

lemma length_incrLE [simp]: "length (incrLE xs) = length xs"
  by (induction xs) simp_all

lemma length_ctrIncr [simp]: "length (ctrIncr xs) = length xs"
  by (simp add: ctrIncr_def)

lemma length_keyStream:
  "block_ok b \<Longrightarrow> BlockSize b = 16 \<Longrightarrow> length ctr = 16 \<Longrightarrow> length (keyStream b ctr k) = 16 * k"
  by (induction k arbitrary: ctr) (simp_all add: block_ok_length)

lemma length_S0: "ccm_inv c \<Longrightarrow> length (S0 c nonce) = 16"
  by (simp add: S0_def block_ok_length ccm_inv_block)

lemma length_ctrCrypt: "ccm_inv c \<Longrightarrow> length (ctrCrypt c nonce xs) = length xs"
proof -
  assume inv: "ccm_inv c"
  have "length xs \<le> 16 * ((length xs + 15) div 16)" by presburger
  then show ?thesis
    by (simp add: ctrCrypt_def length_keyStream ccm_inv_block [OF inv])
qed

lemma map2_xor_commute: "map2 (XOR) a b = map2 (XOR) b (a :: bytes)"
proof (induction a arbitrary: b)
  case Nil
  then show ?case by simp
next
  case (Cons x xs)
  then show ?case by (cases b) (simp_all add: xor.commute)
qed

lemma map2_xor_cancel: "length xs \<le> length ks \<Longrightarrow> map2 (XOR) (map2 (XOR) xs ks) ks = (xs :: bytes)"
proof (induction xs arbitrary: ks)
  case Nil
  then show ?case by simp
next
  case (Cons x xs)
  then show ?case by (cases ks) (simp_all add: xor.assoc)
qed

lemma ctrCrypt_involution:
  assumes "ccm_inv c"
  shows "ctrCrypt c nonce (ctrCrypt c nonce xs) = xs"
proof -
  have "length xs \<le> 16 * ((length xs + 15) div 16)" by presburger
  then have "length xs \<le> length (keyStream (blockCipher c) ((formatCtr0 c nonce)[15 := 1])
                      ((length xs + 15) div 16))"
    by (simp add: length_keyStream ccm_inv_block [OF assms])
  then show ?thesis
    unfolding ctrCrypt_def [of c nonce "ctrCrypt c nonce xs"] length_ctrCrypt [OF assms]
    unfolding ctrCrypt_def by (rule map2_xor_cancel)
qed

lemma sealMacInput_simps [simp]:
  "sealMacInput c (Apart xs) nonce pt = pt"
  "sealMacInput c dst nonce [] = []"
  by (simp_all add: sealMacInput_def ctrCrypt_def split: dstSlice.split)

lemma length_sealMacInput: "ccm_inv c \<Longrightarrow> length (sealMacInput c dst nonce pt) = length pt"
  by (simp add: sealMacInput_def length_ctrCrypt split: dstSlice.split)

lemma Seal_eq:
  assumes "ccm_inv c" and "int (length nonce) = nonceSize c"
    and "\<not> maxUnsignedVarInt (15 - nonceSize c) < of_nat (length pt)"
  shows "Seal c dst nonce pt ad =
           (Inr (Some (take (nat (int (length pt) + tagSize c))
                         (dstBytes dst @ ctrCrypt c nonce pt
                              @ map2 (XOR) (S0 c nonce)
                                  (ci (ccmMac c nonce ad (sealMacInput c dst nonce pt)))))),
            c\<lparr>mac := ccmMac c nonce ad (sealMacInput c dst nonce pt)\<rparr>)"
proof -
  note b = ccm_inv_block [OF assms(1)]
  have ci: "length (ci (mac c)) = 16" using assms(1) by (simp add: ccm_inv_def mac_inv_def)
  have ks: "length pt \<le> 16 * ((length pt + 15) div 16)" by presburger
  have s0: "length (Encrypt (blockCipher c) (formatCtr0 c nonce)) = 16"
    using length_S0 [OF assms(1)] by (simp add: S0_def)
  have cm: "(15 + length pt) div 16 = (length pt + 15) div 16" by (simp add: add.commute)
  have lc: "length (ctrCrypt c nonce pt) = length pt" by (rule length_ctrCrypt [OF assms(1)])
  have cc: "map2 (XOR) pt (keyStream (blockCipher c) ((formatCtr0 c nonce)[15 := 1])
                             ((length pt + 15) div 16)) = ctrCrypt c nonce pt"
    by (simp add: ctrCrypt_def)
  show ?thesis
  proof (cases "sealMacInput c dst nonce pt = pt")
    case True
    show ?thesis
      unfolding Seal_def NonceSize_def sliceForAppend_def Size_def Let_def
      using assms(2,3) ks True
      by (simp add: cm cc lc getTag_ccmMac [OF assms(1,2)] onSlice_def XORKeyStream_def xorBytes_def
          S0_def b ci s0 length_keyStream length_ccmMac [OF assms(1)] nat_add_distrib
          sealMacInput_def split: dstSlice.splits if_splits)
  next
    case False
    then obtain k where d: "dst = InPlace k" and k: "length pt + 16 \<le> k"
      and m: "sealMacInput c dst nonce pt = ctrCrypt c nonce pt"
      by (auto simp: sealMacInput_def split: dstSlice.splits if_splits)
    show ?thesis
      unfolding Seal_def NonceSize_def sliceForAppend_def Size_def Let_def m
      using assms(2,3) ks k
      by (simp add: d cm cc lc getTag_ccmMac [OF assms(1,2)] onSlice_def XORKeyStream_def xorBytes_def
          S0_def b ci s0 length_keyStream length_ccmMac [OF assms(1)] nat_add_distrib)
  qed
qed

lemma Seal_eq_Apart:
  assumes "ccm_inv c" and "int (length nonce) = nonceSize c"
    and "\<not> maxUnsignedVarInt (15 - nonceSize c) < of_nat (length pt)"
  shows "Seal c (Apart ds) nonce pt ad =
           (Inr (Some (take (nat (int (length pt) + tagSize c))
                         (ds @ ctrCrypt c nonce pt
                              @ map2 (XOR) (S0 c nonce) (ci (ccmMac c nonce ad pt))))),
            c\<lparr>mac := ccmMac c nonce ad pt\<rparr>)"
  using Seal_eq [OF assms, of "Apart ds" ad] by simp

lemma Open_nonce:
  "int (length nonce) \<noteq> nonceSize c \<Longrightarrow> Open c dst nonce ct ad = (Inl ErrInvalidNonceSize, c)"
  unfolding Open_def by simp

lemma Open_short:
  "int (length nonce) = nonceSize c \<Longrightarrow> int (length ct) \<le> tagSize c \<Longrightarrow>
   Open c dst nonce ct ad = (Inl ErrInvalidTagSize, c)"
  unfolding Open_def by simp

lemma Open_large:
  "int (length nonce) = nonceSize c \<Longrightarrow> tagSize c < int (length ct) \<Longrightarrow>
   maxUnsignedVarInt (15 - nonceSize c) < word_of_int (int (length ct) - tagSize c) \<Longrightarrow>
   Open c dst nonce ct ad = (Inl ErrMaxPayloadSizeReached, c)"
  unfolding Open_def by simp

lemma Open_run:
  "int (length nonce) = nonceSize c \<Longrightarrow> tagSize c < int (length ct) \<Longrightarrow>
   \<not> maxUnsignedVarInt (15 - nonceSize c) < word_of_int (int (length ct) - tagSize c) \<Longrightarrow>
   fst (Open c dst nonce ct ad) = Inl ErrAuthenticationFailed \<or> (\<exists>r. fst (Open c dst nonce ct ad) = Inr r)"
  unfolding Open_def by (simp add: Let_def split: prod.split)

lemma Open_eq:
  assumes "ccm_inv c" and "int (length nonce) = nonceSize c"
    and "tagSize c < int (length ct)"
    and "\<not> maxUnsignedVarInt (15 - nonceSize c) < word_of_int (int (length ct) - tagSize c)"
  shows "Open c dst nonce ct ad =
           (let P = ctrCrypt c nonce (take (length ct - nat (tagSize c)) ct);
                M = ccmMac c nonce ad P
            in (if take (nat (tagSize c)) (map2 (XOR) (ci M) (S0 c nonce))
                     \<noteq> drop (length ct - nat (tagSize c)) ct
                then Inl ErrAuthenticationFailed else Inr (dstBytes dst @ P),
                c\<lparr>mac := M\<rparr>))"
proof -
  note b = ccm_inv_block [OF assms(1)]
  have t: "0 \<le> tagSize c" using assms(1) by (simp add: ccm_inv_def)
  have n: "nat (int (length ct) - tagSize c) = length ct - nat (tagSize c)"
    using t by linarith
  have cm: "(15 + k) div 16 = (k + 15) div 16" for k :: nat by (simp add: add.commute)
  have ks: "k \<le> 16 * ((k + 15) div 16)" for k :: nat by presburger
  have s0: "length (Encrypt (blockCipher c) (formatCtr0 c nonce)) = 16"
    using length_S0 [OF assms(1)] by (simp add: S0_def)
  show ?thesis
    unfolding Open_def sliceForAppend_def Let_def
    using assms(2,3,4) t
    by (simp add: n cm ks s0 getTag_ccmMac [OF assms(1,2)] XORKeyStream_def xorBytes_def
        ctrCrypt_def S0_def b length_keyStream length_ccmMac [OF assms(1)] min_def
        del: of_int_diff split: dstSlice.split)
qed

section \<open>Guards and lengths\<close>

lemma maxPayload_bound:
  assumes "7 \<le> N" and "N \<le> 13"
  shows "0 \<le> maxPayload N" and "maxPayload N < 2 ^ 64"
proof -
  have "nat (8 * (15 - N)) \<le> 64" using assms by simp
  then have "(2::int) ^ nat (8 * (15 - N)) \<le> 2 ^ 64" by (intro power_increasing) simp_all
  then show "maxPayload N < 2 ^ 64" by (simp add: maxPayload_def)
  show "0 \<le> maxPayload N" by (simp add: maxPayload_def)
qed

lemma Seal_nil:
  "int (length nonce) = nonceSize c \<Longrightarrow>
   maxUnsignedVarInt (15 - nonceSize c) < of_nat (length pt) \<Longrightarrow>
   Seal c dst nonce pt ad = (Inr None, c)"
  unfolding Seal_def NonceSize_def by simp

lemma Seal_guard_small:
  assumes "ccm_inv c" and "int (length pt) \<le> maxPayload (nonceSize c)"
  shows "\<not> maxUnsignedVarInt (15 - nonceSize c) < of_nat (length pt)"
proof -
  have N: "7 \<le> nonceSize c" "nonceSize c \<le> 13" using assms(1) by (simp_all add: ccm_inv_def)
  have "int (length pt) < 2 ^ 64" using maxPayload_bound(2) [OF N] assms(2) by linarith
  then have "length pt < 2 ^ 64" by (metis of_nat_less_iff of_nat_numeral of_nat_power)
  from payload_guard_Seal [OF N this] assms(2) show ?thesis by simp
qed

lemma Seal_out_length:
  assumes "ccm_inv c"
  shows "length (take (nat (int (length pt) + tagSize c))
                   (ds @ ctrCrypt c nonce pt @ map2 (XOR) (S0 c nonce) (ci (ccmMac c nonce ad x))))
         = length pt + nat (tagSize c)"
proof -
  have t: "0 \<le> tagSize c" "tagSize c \<le> 16" using assms by (simp_all add: ccm_inv_def)
  then show ?thesis
    by (simp add: length_ctrCrypt [OF assms] length_S0 [OF assms] length_ccmMac [OF assms]
        nat_add_distrib)
qed

lemma ctrCrypt_mac_cong [simp]: "ctrCrypt (c\<lparr>mac := m\<rparr>) nonce xs = ctrCrypt c nonce xs"
  by (simp add: ctrCrypt_def formatCtr0_def)

lemma S0_mac_cong [simp]: "S0 (c\<lparr>mac := m\<rparr>) nonce = S0 c nonce"
  by (simp add: S0_def formatCtr0_def)

lemma Seal_empty:
  assumes "ccm_inv c" and "int (length nonce) = nonceSize c"
  shows "Seal c dst nonce [] ad =
           (Inr (Some (take (nat (tagSize c))
                         (dstBytes dst @ map2 (XOR) (S0 c nonce) (ci (ccmMac c nonce ad []))))),
            c\<lparr>mac := ccmMac c nonce ad []\<rparr>)"
    and "length (take (nat (tagSize c))
                   (ds @ map2 (XOR) (S0 c nonce) (ci (ccmMac c nonce ad [])))) = nat (tagSize c)"
proof -
  have "\<not> maxUnsignedVarInt (15 - nonceSize c) < of_nat (length ([] :: bytes))" by simp
  from Seal_eq [OF assms this]
  show "Seal c dst nonce [] ad =
           (Inr (Some (take (nat (tagSize c))
                         (dstBytes dst @ map2 (XOR) (S0 c nonce) (ci (ccmMac c nonce ad []))))),
            c\<lparr>mac := ccmMac c nonce ad []\<rparr>)"
    by (simp add: ctrCrypt_def)
  from Seal_out_length [OF assms(1), of "[]" ds nonce ad "[]"]
  show "length (take (nat (tagSize c))
                   (ds @ map2 (XOR) (S0 c nonce) (ci (ccmMac c nonce ad [])))) = nat (tagSize c)"
    by (simp add: ctrCrypt_def)
qed

lemma Open_at_most_tag:
  "int (length ct) \<le> tagSize d \<Longrightarrow>
   Open d dst nonce ct ad =
     (Inl (if int (length nonce) \<noteq> nonceSize d then ErrInvalidNonceSize else ErrInvalidTagSize), d)"
  by (simp add: Open_nonce Open_short)

lemma sealThenOpen_empty:
  assumes "ccm_inv c" and "int (length nonce) = nonceSize c"
  shows "sealThenOpen c nonce [] ad = Some (Inl ErrInvalidTagSize)"
proof -
  have t: "0 \<le> tagSize c" using assms(1) by (simp add: ccm_inv_def)
  have len: "int (length (take (nat (tagSize c))
                   (map2 (XOR) (S0 c nonce) (ci (ccmMac c nonce ad []))))) \<le> tagSize c"
    using Seal_empty(2) [OF assms, of "[]" ad] t by simp
  show ?thesis
    unfolding sealThenOpen_def Seal_empty(1) [OF assms]
    using assms(2) len by (simp add: Open_at_most_tag)
qed

section \<open>Big-endian length fields\<close>

lemma beBytes_Suc: "beBytes (Suc w) u = beBytes w (drop_bit 8 u) @ [ucast u]"
proof -
  have "map (\<lambda>i. ucast (drop_bit (8 * (Suc w - 1 - i)) u) :: byte) [0..<w]
        = map (\<lambda>i. ucast (drop_bit (8 * (w - 1 - i)) (drop_bit 8 u))) [0..<w]"
  proof (rule map_cong [OF refl])
    fix i assume "i \<in> set [0..<w]"
    then have "i < w" by simp
    then have "8 * (Suc w - 1 - i) = 8 + 8 * (w - 1 - i)" by simp
    then show "(ucast (drop_bit (8 * (Suc w - 1 - i)) u) :: byte)
               = ucast (drop_bit (8 * (w - 1 - i)) (drop_bit 8 u))"
      by (simp add: drop_bit_drop_bit add.commute)
  qed
  then show ?thesis by (simp add: beBytes_def)
qed

lemma beValue_snoc: "beValue (bs @ [b]) = 256 * beValue bs + unat b"
  by (simp add: beValue_def)

lemma beValue_beBytes: "beValue (beBytes w u) = unat u mod 256 ^ w"
proof (induction w arbitrary: u)
  case 0
  then show ?case by (simp add: beBytes_def beValue_def)
next
  case (Suc w)
  have a: "unat (ucast u :: byte) = unat u mod 256"
    by (simp add: unsigned_ucast_eq take_bit_eq_mod)
  have "unat (drop_bit 8 u) = drop_bit 8 (unat u)" by (rule unat_drop_bit_eq)
  then have b: "unat (drop_bit 8 u) = unat u div 256"
    by (simp only: drop_bit_eq_div) simp
  have "unat u mod (256 * 256 ^ w) = 256 * (unat u div 256 mod 256 ^ w) + unat u mod 256"
    by (simp add: mod_mult2_eq)
  then show ?case
    by (simp add: beBytes_Suc beValue_snoc Suc.IH a b)
qed

lemma beValue_length_field:
  assumes "7 \<le> N" and "N \<le> 13" and "int (length nonce) = N" and "int q \<le> maxPayload N"
  shows "beValue (beBytes (15 - length nonce) (of_nat q)) = q"
proof -
  have "N = int (length nonce)" using assms(3) by simp
  then have w: "nat (8 * (15 - N)) = 8 * (15 - length nonce)" by simp
  have "int q < 2 ^ 64" using maxPayload_bound(2) [OF assms(1,2)] assms(4) by linarith
  then have q64: "q < 2 ^ 64" by (metis of_nat_less_iff of_nat_numeral of_nat_power)
  have "int q < 2 ^ (8 * (15 - length nonce))"
    using assms(4) unfolding maxPayload_def w by simp
  then have "q < 2 ^ (8 * (15 - length nonce))"
    by (metis of_nat_less_iff of_nat_numeral of_nat_power)
  then have small: "q < 256 ^ (15 - length nonce)" by (simp add: power_mult)
  have "unat (of_nat q :: 64 word) = q" using q64 by (simp add: unat_of_nat)
  then show ?thesis using small by (simp add: beValue_beBytes)
qed

section \<open>The example instance, evaluated\<close>

lemma upd_Cons_numeral: "(x # xs)[numeral k := y] = x # xs[pred_numeral k := y]"
  by (simp add: numeral_eq_Suc)

lemma replicate_numeral_Cons: "replicate (numeral k) x = x # replicate (pred_numeral k) x"
  by (simp add: numeral_eq_Suc)

lemma example_nonce: "int (length exampleNonce) = nonceSize exampleCCM"
  by (simp add: exampleCCM_def exampleNonce_def)

lemma example_Ctr0:
  "formatCtr0 exampleCCM exampleNonce = [1, 1, 2, 3, 4, 5, 6, 7, 8, 9, 10, 11, 12, 13, 0, 0]"
  by (simp add: formatCtr0_def exampleCCM_def exampleNonce_def onSlice_def copyBytes_def
      replicate_numeral_Cons)

lemma example_S0:
  "S0 exampleCCM exampleNonce = [1, 1, 14, 13, 12, 11, 10, 9, 8, 7, 6, 5, 4, 3, 2, 2]"
  unfolding S0_def example_Ctr0 by (simp add: exampleCCM_def exampleBlock_def)

lemma example_ctrCrypt: "ctrCrypt exampleCCM exampleNonce [0x41, 0x42] = [67, 67]"
  unfolding ctrCrypt_def example_Ctr0
  by (simp add: exampleCCM_def exampleBlock_def upd_Cons_numeral)

lemma example_decrypt: "ctrCrypt exampleCCM exampleNonce [67, 67] = [0x41, 0x42]"
  using ctrCrypt_involution [OF exampleCCM_inv, of exampleNonce "[0x41, 0x42]"]
  by (simp only: example_ctrCrypt)

lemma example_B0:
  "B0 exampleCCM exampleNonce [7] [0x41, 0x42]
     = [73, 1, 2, 3, 4, 5, 6, 7, 8, 9, 10, 11, 12, 13, 0, 2]"
  unfolding B0_def example_Ctr0 Let_def
  by (simp add: exampleCCM_def onSlice_def putUVarInt_def upt_rec)

lemma example_prefix: "adataPrefix (length [7 :: byte]) = [0, 1]"
  by (simp add: adataPrefix_def beBytes_def upt_rec)

lemma example_Reset:
  "Reset (mac exampleCCM)
     = \<lparr>ci = [0, 0, 0, 0, 0, 0, 0, 0, 0, 0, 0, 0, 0, 0, 0, 0], p = 0, block = exampleBlock\<rparr>"
  by (simp add: Reset_def exampleCCM_def newCBCMACFromBlock_def exampleBlock_def
      replicate_numeral_Cons)

lemma example_mac:
  "ci (ccmMac exampleCCM exampleNonce [7] [0x41, 0x42])
     = [5, 2, 11, 15, 14, 13, 12, 11, 10, 9, 8, 7, 6, 5, 66, 11]"
  unfolding ccmMac_def Let_def example_B0 example_prefix example_Reset
  by (simp add: writeByte_def PadZero_def Let_def exampleBlock_def upd_Cons_numeral)

lemma example_maxPayload: "maxPayload (nonceSize exampleCCM) = 65535"
  by (simp add: maxPayload_def exampleCCM_def)

lemma exampleCCM16_inv: "ccm_inv exampleCCM16"
proof -
  have "NewCCM exampleBlock 13 16 = Inr exampleCCM16"
    by (simp add: NewCCM_def exampleCCM16_def CbcMacBlockSize_def exampleBlock_def)
  with exampleBlock_ok show ?thesis by (rule NewCCM_inv)
qed

lemma example16_nonce: "int (length exampleNonce) = nonceSize exampleCCM16"
  by (simp add: exampleCCM16_def exampleNonce_def)

lemma example16_Ctr0:
  "formatCtr0 exampleCCM16 exampleNonce = [1, 1, 2, 3, 4, 5, 6, 7, 8, 9, 10, 11, 12, 13, 0, 0]"
  by (simp add: formatCtr0_def exampleCCM16_def exampleNonce_def onSlice_def copyBytes_def
      replicate_numeral_Cons)

lemma example16_S0:
  "S0 exampleCCM16 exampleNonce = [1, 1, 14, 13, 12, 11, 10, 9, 8, 7, 6, 5, 4, 3, 2, 2]"
  unfolding S0_def example16_Ctr0 by (simp add: exampleCCM16_def exampleBlock_def)

lemma example16_ctrCrypt: "ctrCrypt exampleCCM16 exampleNonce [0x41, 0x42] = [67, 67]"
  unfolding ctrCrypt_def example16_Ctr0
  by (simp add: exampleCCM16_def exampleBlock_def upd_Cons_numeral)

lemma example16_decrypt: "ctrCrypt exampleCCM16 exampleNonce [67, 67] = [0x41, 0x42]"
  using ctrCrypt_involution [OF exampleCCM16_inv, of exampleNonce "[0x41, 0x42]"]
  by (simp only: example16_ctrCrypt)

lemma example16_B0:
  "B0 exampleCCM16 exampleNonce [7] [0x41, 0x42]
     = [121, 1, 2, 3, 4, 5, 6, 7, 8, 9, 10, 11, 12, 13, 0, 2]"
  "B0 exampleCCM16 exampleNonce [7] [67, 67]
     = [121, 1, 2, 3, 4, 5, 6, 7, 8, 9, 10, 11, 12, 13, 0, 2]"
  unfolding B0_def example16_Ctr0 Let_def
  by (simp_all add: exampleCCM16_def onSlice_def putUVarInt_def upt_rec)

lemma example16_Reset:
  "Reset (mac exampleCCM16)
     = \<lparr>ci = [0, 0, 0, 0, 0, 0, 0, 0, 0, 0, 0, 0, 0, 0, 0, 0], p = 0, block = exampleBlock\<rparr>"
  by (simp add: Reset_def exampleCCM16_def newCBCMACFromBlock_def exampleBlock_def
      replicate_numeral_Cons)

lemma example16_mac_plaintext:
  "ci (ccmMac exampleCCM16 exampleNonce [7] [0x41, 0x42])
     = [5, 2, 11, 15, 14, 13, 12, 11, 10, 9, 8, 7, 6, 5, 66, 59]"
  unfolding ccmMac_def Let_def example16_B0 example_prefix example16_Reset
  by (simp add: writeByte_def PadZero_def Let_def exampleBlock_def upd_Cons_numeral)

lemma example16_mac_ciphertext:
  "ci (ccmMac exampleCCM16 exampleNonce [7] [67, 67])
     = [5, 2, 11, 15, 14, 13, 12, 11, 10, 9, 8, 7, 6, 5, 65, 57]"
  unfolding ccmMac_def Let_def example16_B0 example_prefix example16_Reset
  by (simp add: writeByte_def PadZero_def Let_def exampleBlock_def upd_Cons_numeral)

lemma example16_maxPayload: "maxPayload (nonceSize exampleCCM16) = 65535"
  by (simp add: maxPayload_def exampleCCM16_def)

section \<open>Seal, Open and the tag: the claims\<close>

text \<open>
  C1 (amended). For an instance as \<open>NewCCM\<close> builds it, a nonce of length \<open>N\<close>, any
  associated data and every non-empty plaintext of at most \<open>maxPayload(N)\<close> bytes,
  \<open>Open(nil, nonce, Seal(nil, nonce, plaintext, ad), ad)\<close> succeeds and returns the
  plaintext.
\<close>

theorem roundtrip:
  assumes "ccm_inv c" and "int (length nonce) = nonceSize c"
    and "pt \<noteq> []" and "int (length pt) \<le> maxPayload (nonceSize c)"
  shows "sealThenOpen c nonce pt ad = Some (Inr pt)"
proof -
  let ?M = "ccmMac c nonce ad pt"
  let ?c' = "c\<lparr>mac := ?M\<rparr>"
  let ?tag = "map2 (XOR) (S0 c nonce) (ci ?M)"
  let ?out = "ctrCrypt c nonce pt @ take (nat (tagSize c)) ?tag"
  have t: "4 \<le> tagSize c" "tagSize c \<le> 16" using assms(1) by (simp_all add: ccm_inv_def)
  have mi: "mac_inv (mac c)" using assms(1) by (simp add: ccm_inv_def)
  have small: "\<not> maxUnsignedVarInt (15 - nonceSize c) < of_nat (length pt)"
    using assms(1,4) by (rule Seal_guard_small)
  have lc: "length (ctrCrypt c nonce pt) = length pt" by (rule length_ctrCrypt [OF assms(1)])
  have ltag: "length ?tag = 16"
    by (simp add: length_S0 [OF assms(1)] length_ccmMac [OF assms(1)])
  have seal: "Seal c (Apart []) nonce pt ad = (Inr (Some ?out), ?c')"
    using Seal_eq_Apart [OF assms(1,2) small, of "[]" ad] t by (simp add: lc nat_add_distrib)
  have inv': "ccm_inv ?c'" by (rule ccm_inv_ccmMac [OF assms(1)])
  have lout: "length ?out = length pt + nat (tagSize c)"
    using t by (simp add: lc length_S0 [OF assms(1)] length_ccmMac [OF assms(1)])
  have n': "int (length nonce) = nonceSize ?c'" using assms(2) by simp
  have long: "tagSize ?c' < int (length ?out)"
    using assms(3) t unfolding lout by (cases pt) simp_all
  have d: "int (length ?out) - tagSize ?c' = int (length pt)"
    unfolding lout using t by simp
  have small': "\<not> maxUnsignedVarInt (15 - nonceSize ?c') < word_of_int (int (length ?out) - tagSize ?c')"
    unfolding d using small by simp
  have cut: "length ?out - nat (tagSize ?c') = length pt" unfolding lout by simp
  have P: "ctrCrypt ?c' nonce (take (length ?out - nat (tagSize ?c')) ?out) = pt"
    unfolding cut by (simp add: lc ctrCrypt_involution [OF assms(1)])
  have M: "ccmMac ?c' nonce ad pt = ?M"
    by (rule ccmMac_mac_cong [OF mi mac_inv_ccmMac [OF mi]]) simp
  have tagdrop: "drop (length ?out - nat (tagSize ?c')) ?out = take (nat (tagSize c)) ?tag"
    unfolding cut by (simp add: lc)
  have cmp: "take (nat (tagSize ?c')) (map2 (XOR) (ci ?M) (S0 ?c' nonce)) = take (nat (tagSize c)) ?tag"
    by (simp add: map2_xor_commute [of "ci ?M"])
  have "Open ?c' (Apart []) nonce ?out ad = (Inr pt, ?c')"
    unfolding Open_eq [OF inv' n' long small'] Let_def P M tagdrop cmp by simp
  with seal show ?thesis by (simp add: sealThenOpen_def)
qed

theorem roundtrip_witness:
  "ccm_inv exampleCCM \<and> int (length exampleNonce) = nonceSize exampleCCM
   \<and> [0x41, 0x42 :: byte] \<noteq> [] \<and> int (length [0x41, 0x42 :: byte]) \<le> maxPayload (nonceSize exampleCCM)
   \<and> sealThenOpen exampleCCM exampleNonce [0x41, 0x42] [7] = Some (Inr [0x41, 0x42])"
  using roundtrip [of exampleCCM exampleNonce "[0x41, 0x42]" "[7]"] exampleCCM_inv
  by (simp add: exampleCCM_def exampleNonce_def maxPayload_def)

text \<open>
  C1 as stated fails on the empty plaintext, which is within \<open>maxPayload(N)\<close>: \<open>Seal\<close>
  returns the \<open>T\<close> tag bytes alone, and \<open>Open\<close> answers \<open>ErrInvalidTagSize\<close>.
\<close>

theorem roundtrip_empty_counterexample:
  "NewCCM exampleBlock 13 4 = Inr exampleCCM \<and> int (length exampleNonce) = 13
   \<and> int (length ([] :: bytes)) \<le> maxPayload 13
   \<and> sealThenOpen exampleCCM exampleNonce [] [] = Some (Inl ErrInvalidTagSize)
   \<and> sealThenOpen exampleCCM exampleNonce [] [] \<noteq> Some (Inr [])"
proof -
  have n: "int (length exampleNonce) = nonceSize exampleCCM"
    by (simp add: exampleCCM_def exampleNonce_def)
  have "sealThenOpen exampleCCM exampleNonce [] [] = Some (Inl ErrInvalidTagSize)"
    using exampleCCM_inv n by (rule sealThenOpen_empty)
  then show ?thesis
    by (simp add: NewCCM_def exampleCCM_def CbcMacBlockSize_def exampleBlock_def
        exampleNonce_def maxPayload_def)
qed

text \<open>
  C2, what the code does. For associated data of \<open>2^15 - 2^7\<close> up to \<open>2^16 - 2^8 - 1\<close>
  bytes the tag computation writes the 6-byte prefix \<open>0xFF 0xFE\<close> and the 32-bit
  big-endian length after \<open>B0\<close>, where C2 has the 2-byte prefix: the source's first
  threshold is \<open>1<<15 - 1<<7\<close>, not \<open>2^16 - 2^8\<close>. At the length \<open>2^16 - 2^8 - 1\<close> that
  C2 names, the bytes written are \<open>FF FE 00 00 FE FF\<close>.
\<close>

theorem adata_prefix_six_bytes:
  assumes "ccm_inv c" and "int (length nonce) = nonceSize c"
    and "2 ^ 15 - 2 ^ 7 \<le> int (length ad)" and "int (length ad) < 2 ^ 16 - 2 ^ 8"
  shows "fst (getTag c ((formatCtr0 c nonce)[15 := 1]) ad pt) =
           ci (PadZero (Write (PadZero (Write
                 (Write (Write (Reset (mac c)) (B0 c nonce ad pt))
                        ([0xff, 0xfe] @ beBytes 4 (of_nat (length ad))))
                 ad)) pt))"
proof -
  have ne: "ad \<noteq> []" using assms(3) by auto
  have pre: "adataPrefix (length ad) = [0xff, 0xfe] @ beBytes 4 (of_nat (length ad))"
    using assms(3,4) by (simp add: adataPrefix_def)
  show ?thesis
    unfolding getTag_ccmMac(2) [OF assms(1,2)] fst_conv ccmMac_def Let_def pre
    using ne by (simp del: Write.simps)
qed

theorem adata_prefix_six_bytes_witness:
  "ccm_inv exampleCCM \<and> int (length exampleNonce) = nonceSize exampleCCM
   \<and> (2::int) ^ 15 - 2 ^ 7 \<le> int (length (replicate 65279 (0::byte)))
   \<and> int (length (replicate 65279 (0::byte))) < 2 ^ 16 - 2 ^ 8
   \<and> fst (getTag exampleCCM ((formatCtr0 exampleCCM exampleNonce)[15 := 1]) (replicate 65279 0) []) =
           ci (PadZero (Write (PadZero (Write
                 (Write (Write (Reset (mac exampleCCM)) (B0 exampleCCM exampleNonce (replicate 65279 0) []))
                        [0xff, 0xfe, 0x00, 0x00, 0xfe, 0xff])
                 (replicate 65279 0))) []))"
proof -
  have lo: "(2::int) ^ 15 - 2 ^ 7 \<le> int (length (replicate 65279 (0::byte)))" by simp
  have hi: "int (length (replicate 65279 (0::byte))) < 2 ^ 16 - 2 ^ 8" by simp
  have e: "[0xff, 0xfe] @ beBytes 4 (of_nat (length (replicate 65279 (0::byte))))
             = [0xff, 0xfe, 0x00, 0x00, 0xfe, 0xff]"
    by (simp add: beBytes_def upt_rec)
  from adata_prefix_six_bytes [OF exampleCCM_inv example_nonce lo hi, of "[]"]
  have "fst (getTag exampleCCM ((formatCtr0 exampleCCM exampleNonce)[15 := 1]) (replicate 65279 0) []) =
           ci (PadZero (Write (PadZero (Write
                 (Write (Write (Reset (mac exampleCCM)) (B0 exampleCCM exampleNonce (replicate 65279 0) []))
                        [0xff, 0xfe, 0x00, 0x00, 0xfe, 0xff])
                 (replicate 65279 0))) []))"
    unfolding e .
  with exampleCCM_inv example_nonce lo hi show ?thesis by blast
qed

text \<open>
  C4, what the code does. For every valid call \<open>Seal\<close> returns the first
  \<open>len(plaintext) + T\<close> bytes of \<open>dst\<close>, ciphertext and tag, in this order: the whole of
  ciphertext and tag when \<open>dst\<close> is empty, and \<open>len(dst)\<close> bytes short of it otherwise,
  where C4 has \<open>len(dst) + len(plaintext) + T\<close> bytes. With \<open>dst\<close> of three bytes the
  example loses the last three of its four tag bytes.
\<close>

theorem Seal_returns_prefix:
  assumes "ccm_inv c" and "int (length nonce) = nonceSize c"
    and "int (length pt) \<le> maxPayload (nonceSize c)"
  shows "\<exists>out c'. Seal c dst nonce pt ad = (Inr (Some out), c')
           \<and> out = take (length pt + nat (tagSize c))
                     (dstBytes dst @ ctrCrypt c nonce pt
                          @ take (nat (tagSize c))
                              (map2 (XOR) (S0 c nonce)
                                 (ci (ccmMac c nonce ad (sealMacInput c dst nonce pt)))))
           \<and> length out = length pt + nat (tagSize c)"
proof -
  let ?tag = "map2 (XOR) (S0 c nonce) (ci (ccmMac c nonce ad (sealMacInput c dst nonce pt)))"
  let ?out = "take (nat (int (length pt) + tagSize c)) (dstBytes dst @ ctrCrypt c nonce pt @ ?tag)"
  have t: "0 \<le> tagSize c" using assms(1) by (simp add: ccm_inv_def)
  have n: "nat (int (length pt) + tagSize c) = length pt + nat (tagSize c)"
    using t by (simp add: nat_add_distrib)
  have "Seal c dst nonce pt ad
          = (Inr (Some ?out), c\<lparr>mac := ccmMac c nonce ad (sealMacInput c dst nonce pt)\<rparr>)"
    by (rule Seal_eq [OF assms(1,2) Seal_guard_small [OF assms(1,3)]])
  moreover have "?out = take (length pt + nat (tagSize c))
                     (dstBytes dst @ ctrCrypt c nonce pt @ take (nat (tagSize c)) ?tag)"
    unfolding n by (simp add: length_ctrCrypt [OF assms(1)])
  moreover have "length ?out = length pt + nat (tagSize c)"
    using Seal_out_length [OF assms(1)] .
  ultimately show ?thesis by blast
qed

theorem Seal_returns_prefix_witness:
  "ccm_inv exampleCCM \<and> int (length exampleNonce) = nonceSize exampleCCM
   \<and> int (length [0x41, 0x42 :: byte]) \<le> maxPayload (nonceSize exampleCCM)
   \<and> fst (Seal exampleCCM (Apart []) exampleNonce [0x41, 0x42] [7])
         = Inr (Some [67, 67, 4, 3, 5, 2])
   \<and> fst (Seal exampleCCM (Apart [9, 9, 9]) exampleNonce [0x41, 0x42] [7])
         = Inr (Some [9, 9, 9, 67, 67, 4])"
proof -
  have p: "int (length [0x41, 0x42 :: byte]) \<le> maxPayload (nonceSize exampleCCM)"
    by (simp add: example_maxPayload)
  have t: "nat (tagSize exampleCCM) = 4" by (simp add: exampleCCM_def)
  from Seal_returns_prefix [OF exampleCCM_inv example_nonce p, of "Apart []" "[7]"]
  have a: "fst (Seal exampleCCM (Apart []) exampleNonce [0x41, 0x42] [7])
             = Inr (Some [67, 67, 4, 3, 5, 2])"
    unfolding sealMacInput_simps dstBytes.simps example_S0 example_mac example_ctrCrypt t by auto
  from Seal_returns_prefix [OF exampleCCM_inv example_nonce p, of "Apart [9, 9, 9]" "[7]"]
  have b: "fst (Seal exampleCCM (Apart [9, 9, 9]) exampleNonce [0x41, 0x42] [7])
             = Inr (Some [9, 9, 9, 67, 67, 4])"
    unfolding sealMacInput_simps dstBytes.simps example_S0 example_mac example_ctrCrypt t by auto
  from exampleCCM_inv example_nonce p a b show ?thesis by simp
qed

text \<open>
  C5, what the code does. \<open>getTag\<close> receives the counter block whose last byte is
  already 1 and overwrites its whole trailing field: the tag is the one computed from
  \<open>Ctr0\<close>. \<open>B0\<close> is the flag byte (\<open>15 - N - 1\<close>, \<open>((T-2)/2) << 3\<close> and bit 6 when there
  is associated data), the nonce, and the length \<open>Q\<close> big-endian over \<open>15 - N\<close> bytes,
  which read back gives \<open>Q\<close>; the tag is the CBC-MAC, from the zero block, of \<open>B0\<close>
  followed by the length prefix and the associated data, zero-padded to a block
  boundary, and then of the bytes that \<open>getTag\<close> is given as plaintext, zero-padded.
  \<open>Open\<close> gives it the recovered plaintext, for every \<open>dst\<close>. \<open>Seal\<close> gives it the
  plaintext when \<open>dst\<close> is apart from the plaintext or has not the capacity for the
  result; when \<open>dst = plaintext[:0]\<close> has the capacity, \<open>Seal\<close> has written the
  ciphertext over the plaintext before it calls \<open>getTag\<close>, and the tag is computed over
  the ciphertext, where C5 has the plaintext. In the example \<open>Open\<close> rejects what \<open>Seal\<close>
  returns for \<open>dst = plaintext[:0]\<close>.
\<close>

theorem tag_over_B0:
  assumes "ccm_inv c" and "int (length nonce) = nonceSize c"
  shows "getTag c ((formatCtr0 c nonce)[15 := 1]) ad pt = getTag c (formatCtr0 c nonce) ad pt
       \<and> fst (getTag c ((formatCtr0 c nonce)[15 := 1]) ad pt) = ci (ccmMac c nonce ad pt)
       \<and> ci (ccmMac c nonce ad pt) =
            cbcMacOf (blockCipher c)
              (cbcMacOf (blockCipher c) (replicate 16 0)
                 (B0 c nonce ad pt @ (if ad = [] then [] else adataPrefix (length ad) @ ad)))
              pt
       \<and> B0 c nonce ad pt =
            (word_of_int (15 - nonceSize c - 1) OR (word_of_int (push_bit 3 ((tagSize c - 2) div 2))
               OR (if ad = [] then 0 else push_bit 6 1)))
            # nonce @ beBytes (15 - length nonce) (of_nat (length pt))
       \<and> (int (length pt) \<le> maxPayload (nonceSize c) \<longrightarrow>
            beValue (drop (Suc (length nonce)) (B0 c nonce ad pt)) = length pt
            \<and> fst (Seal c (Apart ds) nonce pt ad) =
                 Inr (Some (take (nat (int (length pt) + tagSize c))
                              (ds @ ctrCrypt c nonce pt
                                  @ map2 (XOR) (S0 c nonce) (ci (ccmMac c nonce ad pt)))))
            \<and> (k < length pt + 16 \<longrightarrow>
                 fst (Seal c (InPlace k) nonce pt ad) =
                   Inr (Some (take (nat (int (length pt) + tagSize c))
                                (ctrCrypt c nonce pt
                                   @ map2 (XOR) (S0 c nonce) (ci (ccmMac c nonce ad pt))))))
            \<and> (length pt + 16 \<le> k \<longrightarrow>
                 fst (Seal c (InPlace k) nonce pt ad) =
                   Inr (Some (take (nat (int (length pt) + tagSize c))
                                (ctrCrypt c nonce pt
                                   @ map2 (XOR) (S0 c nonce)
                                       (ci (ccmMac c nonce ad (ctrCrypt c nonce pt))))))))
       \<and> (tagSize c < int (length ct) \<and> int (length ct) - tagSize c \<le> maxPayload (nonceSize c) \<longrightarrow>
            fst (Open c dst nonce ct ad) =
              (let P = ctrCrypt c nonce (take (length ct - nat (tagSize c)) ct)
               in if take (nat (tagSize c)) (map2 (XOR) (ci (ccmMac c nonce ad P)) (S0 c nonce))
                       \<noteq> drop (length ct - nat (tagSize c)) ct
                  then Inl ErrAuthenticationFailed else Inr (dstBytes dst @ P)))"
proof -
  have N: "7 \<le> nonceSize c" "nonceSize c \<le> 13" and T: "0 \<le> tagSize c"
    using assms(1) by (simp_all add: ccm_inv_def)
  note g = getTag_ccmMac [OF assms]
  note b0 = B0_eq [OF assms(2) N(2)]
  have a: "getTag c ((formatCtr0 c nonce)[15 := 1]) ad pt = getTag c (formatCtr0 c nonce) ad pt"
    by (simp only: g)
  have b: "fst (getTag c ((formatCtr0 c nonce)[15 := 1]) ad pt) = ci (ccmMac c nonce ad pt)"
    by (simp only: g fst_conv)
  have d: "beValue (drop (Suc (length nonce)) (B0 c nonce ad pt)) = length pt"
    if "int (length pt) \<le> maxPayload (nonceSize c)"
    unfolding b0 using beValue_length_field [OF N assms(2) that] by simp
  have e: "fst (Seal c dst' nonce pt ad) =
                 Inr (Some (take (nat (int (length pt) + tagSize c))
                              (dstBytes dst' @ ctrCrypt c nonce pt
                                 @ map2 (XOR) (S0 c nonce)
                                     (ci (ccmMac c nonce ad (sealMacInput c dst' nonce pt))))))"
    if "int (length pt) \<le> maxPayload (nonceSize c)" for dst'
    using Seal_eq [OF assms Seal_guard_small [OF assms(1) that]] by simp
  have e1: "fst (Seal c (Apart ds) nonce pt ad) =
                 Inr (Some (take (nat (int (length pt) + tagSize c))
                              (ds @ ctrCrypt c nonce pt
                                  @ map2 (XOR) (S0 c nonce) (ci (ccmMac c nonce ad pt)))))"
    if "int (length pt) \<le> maxPayload (nonceSize c)"
    using e [OF that, of "Apart ds"] by simp
  have e2: "fst (Seal c (InPlace k) nonce pt ad) =
                   Inr (Some (take (nat (int (length pt) + tagSize c))
                                (ctrCrypt c nonce pt
                                   @ map2 (XOR) (S0 c nonce) (ci (ccmMac c nonce ad pt)))))"
    if "int (length pt) \<le> maxPayload (nonceSize c)" and "k < length pt + 16"
    using e [OF that(1), of "InPlace k"] that(2) by (simp add: sealMacInput_def)
  have e3: "fst (Seal c (InPlace k) nonce pt ad) =
                   Inr (Some (take (nat (int (length pt) + tagSize c))
                                (ctrCrypt c nonce pt
                                   @ map2 (XOR) (S0 c nonce)
                                       (ci (ccmMac c nonce ad (ctrCrypt c nonce pt))))))"
    if "int (length pt) \<le> maxPayload (nonceSize c)" and "length pt + 16 \<le> k"
    using e [OF that(1), of "InPlace k"] that(2) by (simp add: sealMacInput_def)
  have f: "fst (Open c dst nonce ct ad) =
              (let P = ctrCrypt c nonce (take (length ct - nat (tagSize c)) ct)
               in if take (nat (tagSize c)) (map2 (XOR) (ci (ccmMac c nonce ad P)) (S0 c nonce))
                       \<noteq> drop (length ct - nat (tagSize c)) ct
                  then Inl ErrAuthenticationFailed else Inr (dstBytes dst @ P))"
    if l: "tagSize c < int (length ct)" and s: "int (length ct) - tagSize c \<le> maxPayload (nonceSize c)"
  proof -
    have "int (length ct) - tagSize c < 2 ^ 64"
      using maxPayload_bound(2) [OF N] s by linarith
    moreover have "0 \<le> int (length ct) - tagSize c" using l by simp
    ultimately have u: "uint (word_of_int (int (length ct) - tagSize c) :: 64 word)
                          = int (length ct) - tagSize c"
      by (intro uint_woi)
    have m: "uint (maxUnsignedVarInt (15 - nonceSize c)) = maxPayload (nonceSize c)"
      unfolding maxPayload_def using N by (intro uint_maxUnsignedVarInt) simp_all
    have "\<not> maxUnsignedVarInt (15 - nonceSize c) < word_of_int (int (length ct) - tagSize c)"
      using s by (simp only: word_less_def u m)
    from Open_eq [OF assms l this] show ?thesis by (simp add: Let_def)
  qed
  note b' = ccmMac_cbc [OF assms(1), of nonce ad pt]
  from a b b' b0 d e1 e2 e3 f show ?thesis by blast
qed

theorem tag_over_B0_witness:
  "ccm_inv exampleCCM16 \<and> int (length exampleNonce) = nonceSize exampleCCM16
   \<and> int (length [0x41, 0x42 :: byte]) \<le> maxPayload (nonceSize exampleCCM16)
   \<and> 17 < length [0x41, 0x42 :: byte] + 16 \<and> length [0x41, 0x42 :: byte] + 16 \<le> 18
   \<and> tagSize exampleCCM16
        < int (length [67, 67, 4, 3, 5, 2, 2, 6, 6, 2, 2, 14, 14, 2, 2, 6, 67, 59 :: byte])
   \<and> int (length [67, 67, 4, 3, 5, 2, 2, 6, 6, 2, 2, 14, 14, 2, 2, 6, 67, 59 :: byte])
        - tagSize exampleCCM16 \<le> maxPayload (nonceSize exampleCCM16)
   \<and> tagSize exampleCCM16
        < int (length [67, 67, 4, 3, 5, 2, 2, 6, 6, 2, 2, 14, 14, 2, 2, 6, 64, 57 :: byte])
   \<and> int (length [67, 67, 4, 3, 5, 2, 2, 6, 6, 2, 2, 14, 14, 2, 2, 6, 64, 57 :: byte])
        - tagSize exampleCCM16 \<le> maxPayload (nonceSize exampleCCM16)
   \<and> fst (getTag exampleCCM16 ((formatCtr0 exampleCCM16 exampleNonce)[15 := 1]) [7] [0x41, 0x42])
         = [5, 2, 11, 15, 14, 13, 12, 11, 10, 9, 8, 7, 6, 5, 66, 59]
   \<and> fst (getTag exampleCCM16 (formatCtr0 exampleCCM16 exampleNonce) [7] [0x41, 0x42])
         = [5, 2, 11, 15, 14, 13, 12, 11, 10, 9, 8, 7, 6, 5, 66, 59]
   \<and> B0 exampleCCM16 exampleNonce [7] [0x41, 0x42]
         = [121, 1, 2, 3, 4, 5, 6, 7, 8, 9, 10, 11, 12, 13, 0, 2]
   \<and> beValue (drop (Suc (length exampleNonce)) (B0 exampleCCM16 exampleNonce [7] [0x41, 0x42])) = 2
   \<and> fst (Seal exampleCCM16 (Apart []) exampleNonce [0x41, 0x42] [7])
         = Inr (Some [67, 67, 4, 3, 5, 2, 2, 6, 6, 2, 2, 14, 14, 2, 2, 6, 64, 57])
   \<and> fst (Seal exampleCCM16 (InPlace 17) exampleNonce [0x41, 0x42] [7])
         = Inr (Some [67, 67, 4, 3, 5, 2, 2, 6, 6, 2, 2, 14, 14, 2, 2, 6, 64, 57])
   \<and> fst (Seal exampleCCM16 (InPlace 18) exampleNonce [0x41, 0x42] [7])
         = Inr (Some [67, 67, 4, 3, 5, 2, 2, 6, 6, 2, 2, 14, 14, 2, 2, 6, 67, 59])
   \<and> fst (Open exampleCCM16 (Apart []) exampleNonce
             [67, 67, 4, 3, 5, 2, 2, 6, 6, 2, 2, 14, 14, 2, 2, 6, 64, 57] [7])
         = Inr [0x41, 0x42]
   \<and> fst (Open exampleCCM16 (Apart []) exampleNonce
             [67, 67, 4, 3, 5, 2, 2, 6, 6, 2, 2, 14, 14, 2, 2, 6, 67, 59] [7])
         = Inl ErrAuthenticationFailed"
proof -
  let ?ct = "[67, 67, 4, 3, 5, 2, 2, 6, 6, 2, 2, 14, 14, 2, 2, 6, 67, 59 :: byte]"
  let ?ok = "[67, 67, 4, 3, 5, 2, 2, 6, 6, 2, 2, 14, 14, 2, 2, 6, 64, 57 :: byte]"
  have p: "int (length [0x41, 0x42 :: byte]) \<le> maxPayload (nonceSize exampleCCM16)"
    by (simp add: example16_maxPayload)
  have k: "length [0x41, 0x42 :: byte] + 16 \<le> 18" and k': "17 < length [0x41, 0x42 :: byte] + 16"
    by simp_all
  have l: "tagSize exampleCCM16 < int (length ?ct)" and l': "tagSize exampleCCM16 < int (length ?ok)"
    by (simp_all add: exampleCCM16_def)
  have s: "int (length ?ct) - tagSize exampleCCM16 \<le> maxPayload (nonceSize exampleCCM16)"
    by (simp add: example16_maxPayload) (simp add: exampleCCM16_def)
  have s': "int (length ?ok) - tagSize exampleCCM16 \<le> maxPayload (nonceSize exampleCCM16)"
    by (simp add: example16_maxPayload) (simp add: exampleCCM16_def)
  have t: "nat (tagSize exampleCCM16) = 16" "tagSize exampleCCM16 = 16"
    by (simp_all add: exampleCCM16_def)
  note th = tag_over_B0 [OF exampleCCM16_inv example16_nonce,
      where ad = "[7]" and pt = "[0x41, 0x42]" and ds = "[]" and k = 18
        and dst = "Apart []" and ct = ?ct]
  note th' = tag_over_B0 [OF exampleCCM16_inv example16_nonce,
      where ad = "[7]" and pt = "[0x41, 0x42]" and ds = "[]" and k = 17
        and dst = "Apart []" and ct = ?ok]
  note th1 = th [THEN conjunct1]
  note th2 = th [THEN conjunct2, THEN conjunct1]
  note th4 = th [THEN conjunct2, THEN conjunct2, THEN conjunct2, THEN conjunct2, THEN conjunct1,
      THEN mp, OF p]
  note th4' = th' [THEN conjunct2, THEN conjunct2, THEN conjunct2, THEN conjunct2, THEN conjunct1,
      THEN mp, OF p]
  note th5 = th [THEN conjunct2, THEN conjunct2, THEN conjunct2, THEN conjunct2, THEN conjunct2,
      THEN mp, OF conjI [OF l s]]
  note th5' = th' [THEN conjunct2, THEN conjunct2, THEN conjunct2, THEN conjunct2, THEN conjunct2,
      THEN mp, OF conjI [OF l' s']]
  have a: "fst (getTag exampleCCM16 ((formatCtr0 exampleCCM16 exampleNonce)[15 := 1]) [7] [0x41, 0x42])
         = [5, 2, 11, 15, 14, 13, 12, 11, 10, 9, 8, 7, 6, 5, 66, 59]"
    using th2 unfolding example16_mac_plaintext .
  have b: "fst (getTag exampleCCM16 (formatCtr0 exampleCCM16 exampleNonce) [7] [0x41, 0x42])
         = [5, 2, 11, 15, 14, 13, 12, 11, 10, 9, 8, 7, 6, 5, 66, 59]"
    using th1 a by simp
  have d: "beValue (drop (Suc (length exampleNonce)) (B0 exampleCCM16 exampleNonce [7] [0x41, 0x42])) = 2"
    using th4 [THEN conjunct1] by simp
  have e1: "fst (Seal exampleCCM16 (Apart []) exampleNonce [0x41, 0x42] [7]) = Inr (Some ?ok)"
    using th4 [THEN conjunct2, THEN conjunct1]
    unfolding example16_S0 example16_mac_plaintext example16_ctrCrypt t(2) by simp
  have e2: "fst (Seal exampleCCM16 (InPlace 17) exampleNonce [0x41, 0x42] [7]) = Inr (Some ?ok)"
    using th4' [THEN conjunct2, THEN conjunct2, THEN conjunct1, THEN mp, OF k']
    unfolding example16_S0 example16_mac_plaintext example16_ctrCrypt t(2) by simp
  have e3: "fst (Seal exampleCCM16 (InPlace 18) exampleNonce [0x41, 0x42] [7]) = Inr (Some ?ct)"
    using th4 [THEN conjunct2, THEN conjunct2, THEN conjunct2, THEN mp, OF k]
    unfolding example16_S0 example16_ctrCrypt example16_mac_ciphertext t(2) by simp
  have P: "ctrCrypt exampleCCM16 exampleNonce
             (take (length ?ct - nat (tagSize exampleCCM16)) ?ct) = [0x41, 0x42]"
    by (simp add: t example16_decrypt)
  have P': "ctrCrypt exampleCCM16 exampleNonce
             (take (length ?ok - nat (tagSize exampleCCM16)) ?ok) = [0x41, 0x42]"
    by (simp add: t example16_decrypt)
  have q: "drop (length ?ct - nat (tagSize exampleCCM16)) ?ct
             = [4, 3, 5, 2, 2, 6, 6, 2, 2, 14, 14, 2, 2, 6, 67, 59]"
    by (simp add: t)
  have q': "drop (length ?ok - nat (tagSize exampleCCM16)) ?ok
             = [4, 3, 5, 2, 2, 6, 6, 2, 2, 14, 14, 2, 2, 6, 64, 57]"
    by (simp add: t)
  have f: "fst (Open exampleCCM16 (Apart []) exampleNonce ?ct [7]) = Inl ErrAuthenticationFailed"
    using th5 by (simp only: Let_def P q example16_mac_plaintext example16_S0) (simp add: t)
  have g: "fst (Open exampleCCM16 (Apart []) exampleNonce ?ok [7]) = Inr [0x41, 0x42]"
    using th5' by (simp only: Let_def P' q' example16_mac_plaintext example16_S0) (simp add: t)
  from exampleCCM16_inv example16_nonce p k k' l s l' s' a b example16_B0(1) d e1 e2 e3 g f
  show ?thesis by blast
qed

text \<open>
  C6. \<open>Open\<close> fails with \<open>ErrInvalidNonceSize\<close> exactly when the nonce length differs from
  \<open>N\<close>; otherwise with \<open>ErrInvalidTagSize\<close> exactly when the input has at most \<open>T\<close>
  bytes; otherwise with \<open>ErrMaxPayloadSizeReached\<close> exactly when \<open>len(ciphertext) - T\<close>
  exceeds \<open>maxPayload(N)\<close>. In each of the three cases it returns the error alone and
  leaves the instance as it was. The input is a Go slice, of fewer than \<open>2^63\<close> bytes.
\<close>

theorem Open_errors:
  assumes "ccm_inv c" and "length ciphertext < 2 ^ 63"
  shows "(fst (Open c dst nonce ciphertext ad) = Inl ErrInvalidNonceSize
            \<longleftrightarrow> int (length nonce) \<noteq> nonceSize c)
       \<and> (int (length nonce) = nonceSize c \<longrightarrow>
            (fst (Open c dst nonce ciphertext ad) = Inl ErrInvalidTagSize
               \<longleftrightarrow> int (length ciphertext) \<le> tagSize c))
       \<and> (int (length nonce) = nonceSize c \<and> tagSize c < int (length ciphertext) \<longrightarrow>
            (fst (Open c dst nonce ciphertext ad) = Inl ErrMaxPayloadSizeReached
               \<longleftrightarrow> maxPayload (nonceSize c) < int (length ciphertext) - tagSize c))
       \<and> (int (length nonce) \<noteq> nonceSize c \<or> int (length ciphertext) \<le> tagSize c
            \<or> maxPayload (nonceSize c) < int (length ciphertext) - tagSize c
            \<longrightarrow> (\<exists>e. Open c dst nonce ciphertext ad = (Inl e, c)))"
proof -
  let ?r = "Open c dst nonce ciphertext ad"
  let ?big = "maxUnsignedVarInt (15 - nonceSize c)
                < (word_of_int (int (length ciphertext) - tagSize c) :: 64 word)"
  have N: "7 \<le> nonceSize c" "nonceSize c \<le> 13" and T: "0 \<le> tagSize c"
    using assms(1) by (simp_all add: ccm_inv_def)
  have l: "length ciphertext < 2 ^ 64" using assms(2) by simp
  have g: "?big \<longleftrightarrow> maxPayload (nonceSize c) < int (length ciphertext) - tagSize c"
    if "tagSize c < int (length ciphertext)"
    using payload_guard_Open [OF N l that T] .
  consider (nonce) "int (length nonce) \<noteq> nonceSize c"
    | (short) "int (length nonce) = nonceSize c" "int (length ciphertext) \<le> tagSize c"
    | (large) "int (length nonce) = nonceSize c" "tagSize c < int (length ciphertext)" "?big"
    | (run) "int (length nonce) = nonceSize c" "tagSize c < int (length ciphertext)" "\<not> ?big"
    by linarith
  then show ?thesis
  proof cases
    case nonce
    then show ?thesis by (simp add: Open_nonce)
  next
    case short
    have "maxPayload (nonceSize c) \<ge> 0" by (rule maxPayload_bound(1) [OF N])
    with short show ?thesis by (simp add: Open_short)
  next
    case large
    have "?r = (Inl ErrMaxPayloadSizeReached, c)" using large by (rule Open_large)
    then show ?thesis using large g by simp
  next
    case run
    have "fst ?r = Inl ErrAuthenticationFailed \<or> (\<exists>r. fst ?r = Inr r)"
      using run by (rule Open_run)
    then show ?thesis using run g by auto
  qed
qed

theorem Open_errors_witness:
  "ccm_inv exampleCCM \<and> length [1, 2, 3 :: byte] < 2 ^ 63
   \<and> length (replicate 65540 (0::byte)) < 2 ^ 63
   \<and> int (length exampleNonce) = nonceSize exampleCCM
   \<and> int (length [1 :: byte]) \<noteq> nonceSize exampleCCM
   \<and> int (length [1, 2, 3 :: byte]) \<le> tagSize exampleCCM
   \<and> tagSize exampleCCM < int (length (replicate 65540 (0::byte)))
   \<and> maxPayload (nonceSize exampleCCM) < int (length (replicate 65540 (0::byte))) - tagSize exampleCCM
   \<and> fst (Open exampleCCM (Apart []) [1] [1, 2, 3] []) = Inl ErrInvalidNonceSize
   \<and> fst (Open exampleCCM (Apart []) exampleNonce [1, 2, 3] []) = Inl ErrInvalidTagSize
   \<and> fst (Open exampleCCM (Apart []) exampleNonce (replicate 65540 0) [])
         = Inl ErrMaxPayloadSizeReached"
  using Open_errors [of exampleCCM "[1, 2, 3]" "Apart []" "[1]" "[]"]
    Open_errors [of exampleCCM "[1, 2, 3]" "Apart []" exampleNonce "[]"]
    Open_errors [of exampleCCM "replicate 65540 0" "Apart []" exampleNonce "[]"]
    exampleCCM_inv example_nonce
  by (simp add: example_maxPayload) (simp add: exampleCCM_def)

text \<open>
  C7. For a nonce of the right length, \<open>Seal\<close> on a plaintext longer than
  \<open>maxPayload(N) = 2^(8*(15-N)) - 1\<close> returns \<open>nil\<close>, with no panic and the instance
  untouched. On a plaintext of at most that length (so also of exactly that length) it
  proceeds: it returns the first \<open>len(plaintext) + T\<close> bytes of \<open>dst\<close>, the CTR
  ciphertext and the tag, which are \<open>len(plaintext) + T\<close> bytes, and leaves the MAC of
  the call in the accumulator. The plaintext is a Go slice, of fewer than \<open>2^63\<close> bytes.
\<close>

theorem Seal_payload_limit:
  assumes "ccm_inv c" and "int (length nonce) = nonceSize c" and "length pt < 2 ^ 63"
  shows "(maxPayload (nonceSize c) < int (length pt) \<longrightarrow>
            Seal c dst nonce pt ad = (Inr None, c))
       \<and> (int (length pt) \<le> maxPayload (nonceSize c) \<longrightarrow>
            (\<exists>out. Seal c dst nonce pt ad =
                     (Inr (Some out), c\<lparr>mac := ccmMac c nonce ad (sealMacInput c dst nonce pt)\<rparr>)
                \<and> out = take (length pt + nat (tagSize c))
                          (dstBytes dst @ ctrCrypt c nonce pt
                             @ take (nat (tagSize c))
                                 (map2 (XOR) (S0 c nonce)
                                    (ci (ccmMac c nonce ad (sealMacInput c dst nonce pt)))))
                \<and> length out = length pt + nat (tagSize c)))"
proof -
  have N: "7 \<le> nonceSize c" "nonceSize c \<le> 13" and t: "0 \<le> tagSize c"
    using assms(1) by (simp_all add: ccm_inv_def)
  have l: "length pt < 2 ^ 64" using assms(3) by simp
  note g = payload_guard_Seal [OF N l]
  show ?thesis
  proof (intro conjI impI)
    assume "maxPayload (nonceSize c) < int (length pt)"
    then have "maxUnsignedVarInt (15 - nonceSize c) < of_nat (length pt)" using g by simp
    with assms(2) show "Seal c dst nonce pt ad = (Inr None, c)" by (rule Seal_nil)
  next
    let ?M = "ccmMac c nonce ad (sealMacInput c dst nonce pt)"
    let ?tag = "map2 (XOR) (S0 c nonce) (ci ?M)"
    let ?out = "take (nat (int (length pt) + tagSize c)) (dstBytes dst @ ctrCrypt c nonce pt @ ?tag)"
    assume "int (length pt) \<le> maxPayload (nonceSize c)"
    then have "\<not> maxUnsignedVarInt (15 - nonceSize c) < of_nat (length pt)" using g by simp
    from Seal_eq [OF assms(1,2) this]
    have "Seal c dst nonce pt ad = (Inr (Some ?out), c\<lparr>mac := ?M\<rparr>)" .
    moreover have "?out = take (length pt + nat (tagSize c))
                     (dstBytes dst @ ctrCrypt c nonce pt @ take (nat (tagSize c)) ?tag)"
      using t by (simp add: nat_add_distrib length_ctrCrypt [OF assms(1)])
    moreover have "length ?out = length pt + nat (tagSize c)"
      using Seal_out_length [OF assms(1)] .
    ultimately show "\<exists>out. Seal c dst nonce pt ad = (Inr (Some out), c\<lparr>mac := ?M\<rparr>)
                \<and> out = take (length pt + nat (tagSize c))
                          (dstBytes dst @ ctrCrypt c nonce pt @ take (nat (tagSize c)) ?tag)
                \<and> length out = length pt + nat (tagSize c)"
      by blast
  qed
qed

theorem Seal_payload_limit_witness:
  "ccm_inv exampleCCM \<and> int (length exampleNonce) = nonceSize exampleCCM
   \<and> length (replicate 65536 (0::byte)) < 2 ^ 63 \<and> length (replicate 65535 (0::byte)) < 2 ^ 63
   \<and> length [0x41, 0x42 :: byte] < 2 ^ 63
   \<and> maxPayload (nonceSize exampleCCM) < int (length (replicate 65536 (0::byte)))
   \<and> int (length (replicate 65535 (0::byte))) \<le> maxPayload (nonceSize exampleCCM)
   \<and> int (length [0x41, 0x42 :: byte]) \<le> maxPayload (nonceSize exampleCCM)
   \<and> Seal exampleCCM (Apart []) exampleNonce (replicate 65536 0) [] = (Inr None, exampleCCM)
   \<and> (\<exists>out c'. Seal exampleCCM (Apart []) exampleNonce (replicate 65535 0) []
                    = (Inr (Some out), c')
          \<and> length out = 65539)
   \<and> fst (Seal exampleCCM (Apart []) exampleNonce [0x41, 0x42] [7])
         = Inr (Some [67, 67, 4, 3, 5, 2])"
proof -
  have big: "maxPayload (nonceSize exampleCCM) < int (length (replicate 65536 (0::byte)))"
    and edge: "int (length (replicate 65535 (0::byte))) \<le> maxPayload (nonceSize exampleCCM)"
    and small: "int (length [0x41, 0x42 :: byte]) \<le> maxPayload (nonceSize exampleCCM)"
    by (simp_all add: example_maxPayload)
  have l: "length (replicate 65536 (0::byte)) < 2 ^ 63" "length (replicate 65535 (0::byte)) < 2 ^ 63"
    "length [0x41, 0x42 :: byte] < 2 ^ 63"
    by simp_all
  have t: "nat (tagSize exampleCCM) = 4" by (simp add: exampleCCM_def)
  have a: "Seal exampleCCM (Apart []) exampleNonce (replicate 65536 0) [] = (Inr None, exampleCCM)"
    using Seal_payload_limit [OF exampleCCM_inv example_nonce l(1), of "Apart []" "[]"] big
    by blast
  have b: "\<exists>out c'. Seal exampleCCM (Apart []) exampleNonce (replicate 65535 0) []
                    = (Inr (Some out), c') \<and> length out = 65539"
    using Seal_payload_limit [OF exampleCCM_inv example_nonce l(2), of "Apart []" "[]"] edge
    unfolding t by (simp only: length_replicate) auto
  have "\<exists>out. fst (Seal exampleCCM (Apart []) exampleNonce [0x41, 0x42] [7]) = Inr (Some out)
          \<and> out = take (length [0x41, 0x42 :: byte] + 4)
                    ([] @ [67, 67] @ take 4
                       (map2 (XOR) [1, 1, 14, 13, 12, 11, 10, 9, 8, 7, 6, 5, 4, 3, 2, 2]
                          [5, 2, 11, 15, 14, 13, 12, 11, 10, 9, 8, 7, 6, 5, 66, 11]))"
    using Seal_payload_limit [OF exampleCCM_inv example_nonce l(3), of "Apart []" "[7]"] small
    unfolding sealMacInput_simps dstBytes.simps example_S0 example_mac example_ctrCrypt t
    by auto
  then have c: "fst (Seal exampleCCM (Apart []) exampleNonce [0x41, 0x42] [7])
                  = Inr (Some [67, 67, 4, 3, 5, 2])"
    by simp
  from exampleCCM_inv example_nonce l big edge small a b c show ?thesis by blast
qed

text \<open>
  C10. For a nonce of the right length and any associated data and \<open>dst\<close>, \<open>Seal\<close> on the
  empty plaintext returns exactly \<open>T\<close> bytes; \<open>Open\<close> rejects every input of at most \<open>T\<close>
  bytes with \<open>ErrInvalidTagSize\<close>; so \<open>Open\<close> fails on what \<open>Seal\<close> returned, whatever
  the destination, nonce and associated data it is given.
\<close>

theorem Seal_empty_never_opens:
  assumes "ccm_inv c" and "int (length nonce) = nonceSize c"
  shows "\<exists>out c'. Seal c dst nonce [] ad = (Inr (Some out), c')
           \<and> int (length out) = tagSize c
           \<and> (\<forall>ct dst' ad'. int (length ct) \<le> tagSize c \<longrightarrow>
                 Open c' dst' nonce ct ad' = (Inl ErrInvalidTagSize, c'))
           \<and> (\<forall>dst' nonce' ad'. \<exists>e. Open c' dst' nonce' out ad' = (Inl e, c'))"
proof -
  let ?out = "take (nat (tagSize c))
                (dstBytes dst @ map2 (XOR) (S0 c nonce) (ci (ccmMac c nonce ad [])))"
  let ?c' = "c\<lparr>mac := ccmMac c nonce ad []\<rparr>"
  have t: "0 \<le> tagSize c" using assms(1) by (simp add: ccm_inv_def)
  have len: "int (length ?out) = tagSize c"
    using Seal_empty(2) [OF assms] t by simp
  have "Seal c dst nonce [] ad = (Inr (Some ?out), ?c')" by (rule Seal_empty(1) [OF assms])
  moreover have "\<forall>ct dst' ad'. int (length ct) \<le> tagSize c \<longrightarrow>
                 Open ?c' dst' nonce ct ad' = (Inl ErrInvalidTagSize, ?c')"
    using assms(2) by (simp add: Open_at_most_tag)
  moreover have "\<forall>dst' nonce' ad'. \<exists>e. Open ?c' dst' nonce' ?out ad' = (Inl e, ?c')"
    using len by (simp add: Open_at_most_tag)
  ultimately show ?thesis using len by blast
qed

theorem Seal_empty_never_opens_witness:
  "ccm_inv exampleCCM \<and> int (length exampleNonce) = nonceSize exampleCCM
   \<and> (\<exists>out c'. Seal exampleCCM (Apart []) exampleNonce [] [7] = (Inr (Some out), c')
           \<and> int (length out) = tagSize exampleCCM
           \<and> Open c' (Apart []) exampleNonce [1, 2, 3, 4] [7] = (Inl ErrInvalidTagSize, c')
           \<and> (\<exists>e. Open c' (Apart []) exampleNonce out [7] = (Inl e, c')))"
proof -
  have n: "int (length exampleNonce) = nonceSize exampleCCM"
    by (simp add: exampleCCM_def exampleNonce_def)
  have t: "int (length [1, 2, 3, 4 :: byte]) \<le> tagSize exampleCCM"
    by (simp add: exampleCCM_def)
  from Seal_empty_never_opens [OF exampleCCM_inv n, of "Apart []" "[7]"] t
  have "\<exists>out c'. Seal exampleCCM (Apart []) exampleNonce [] [7] = (Inr (Some out), c')
           \<and> int (length out) = tagSize exampleCCM
           \<and> Open c' (Apart []) exampleNonce [1, 2, 3, 4] [7] = (Inl ErrInvalidTagSize, c')
           \<and> (\<exists>e. Open c' (Apart []) exampleNonce out [7] = (Inl e, c'))"
    by blast
  with exampleCCM_inv n show ?thesis by simp
qed

end
